theory Spec2Isabelle
  imports Complex_Main "HOL-Library.AList"
begin

section \<open>Data model of the federated Q-learning controller\<close>

text \<open>
  The learning state of \<^verbatim>\<open>SDNQLTRFederatedController\<close> (osken.py) is three nested Python
  dictionaries. A Python dict keeps its keys in insertion order, assigning to a key that
  is present keeps its place and assigning to a new key appends it; the iteration order
  decides the result of the sequential averaging and of the arg-max. A dict is therefore
  an association list, read with \<open>map_of\<close> and written with \<open>AList.update\<close>, which
  replaces in place or appends at the end.

  Q-values, rewards and trust scores are Python floats. They are modelled as real
  numbers: rounding is not part of the model.
\<close>

type_synonym ('k, 'v) dict = "('k \<times> 'v) list"

type_synonym datapath_id = nat
type_synonym address = string
type_synonym action = nat

type_synonym qentry = "(action, real) dict"
type_synonym dstmap = "(address, qentry) dict"
type_synonym qtable = "(address, dstmap) dict"

record controller =
  q_values :: "(datapath_id, qtable) dict"
  global_q_values :: qtable
  trust_values :: "(address, real) dict"

text \<open>The state built by \<^verbatim>\<open>__init__\<close> (lines 15 to 17).\<close>

definition init_controller :: controller where
  "init_controller = \<lparr>q_values = [], global_q_values = [], trust_values = []\<rparr>"

text \<open>
  \<^verbatim>\<open>self.learning_rate\<close> and \<^verbatim>\<open>self.discount_factor\<close> are assigned once in
  \<^verbatim>\<open>__init__\<close> (lines 18, 19) and never again.
\<close>

definition learning_rate :: real where
  "learning_rate = 6 / 10"

definition discount_factor :: real where
  "discount_factor = 95 / 100"

datatype error = TypeError | ValueError

subsection \<open>Dictionary operations\<close>

text \<open>\<^verbatim>\<open>d.get(k, default)\<close>.\<close>

definition dict_get :: "('k, 'v) dict \<Rightarrow> 'k \<Rightarrow> 'v \<Rightarrow> 'v" where
  "dict_get d k dflt = (case map_of d k of None \<Rightarrow> dflt | Some v \<Rightarrow> v)"

text \<open>
  The guard \<^verbatim>\<open>if k not in d: d[k] = {}\<close>. Every subscript \<^verbatim>\<open>d[k]\<close> of the source
  follows such a guard (or iterates the keys of \<open>d\<close>), so it is read as
  \<open>dict_get d k []\<close>, whose default is never taken (lemma \<open>init_key_present\<close>).
\<close>

definition init_key :: "'k \<Rightarrow> ('k, ('a, 'b) dict) dict \<Rightarrow> ('k, ('a, 'b) dict) dict" where
  "init_key k d = (if map_of d k = None then AList.update k [] d else d)"

text \<open>\<^verbatim>\<open>d.values()\<close>, in iteration order.\<close>

definition dict_values :: "('k, 'v) dict \<Rightarrow> 'v list" where
  "dict_values d = map snd d"

text \<open>Reading a table at two and at three keys, \<open>None\<close> where a key is missing.\<close>

definition entry_of :: "qtable \<Rightarrow> address \<Rightarrow> address \<Rightarrow> qentry option" where
  "entry_of t src dst = (case map_of t src of None \<Rightarrow> None | Some m \<Rightarrow> map_of m dst)"

definition value_of :: "qtable \<Rightarrow> address \<Rightarrow> address \<Rightarrow> action \<Rightarrow> real option" where
  "value_of t src dst a = (case entry_of t src dst of None \<Rightarrow> None | Some e \<Rightarrow> map_of e a)"

definition dst_value_of :: "dstmap \<Rightarrow> address \<Rightarrow> action \<Rightarrow> real option" where
  "dst_value_of m dst a = (case map_of m dst of None \<Rightarrow> None | Some e \<Rightarrow> map_of e a)"

text \<open>The keys of a Python dict are distinct, at every level of a table.\<close>

definition dict_keys_distinct :: "qtable \<Rightarrow> bool" where
  "dict_keys_distinct t =
     (distinct (map fst t)
      \<and> list_all (\<lambda>sm. distinct (map fst (snd sm))
                    \<and> list_all (\<lambda>de. distinct (map fst (snd de))) (snd sm)) t)"

definition dstmap_keys_distinct :: "dstmap \<Rightarrow> bool" where
  "dstmap_keys_distinct m =
     (distinct (map fst m) \<and> list_all (\<lambda>de. distinct (map fst (snd de))) m)"

definition store_ok :: "(datapath_id, qtable) dict \<Rightarrow> bool" where
  "store_ok q = (distinct (map fst q) \<and> list_all (\<lambda>dt. dict_keys_distinct (snd dt)) q)"

subsection \<open>The built-in \<^verbatim>\<open>max\<close>\<close>

text \<open>
  \<^verbatim>\<open>max(xs, default=d)\<close> returns \<open>d\<close> on an empty iterable, the only element of a
  one-element iterable without comparing anything, and otherwise compares each further
  element with the running maximum by \<^verbatim>\<open>>\<close>. Python 3 orders numbers but not dicts:
  \<^verbatim>\<open>{} > {}\<close> raises TypeError, and so does \<^verbatim>\<open>0.95 * {}\<close>.
\<close>

datatype pyval = PyNum real | PyDict qentry

fun py_gt :: "pyval \<Rightarrow> pyval \<Rightarrow> error + bool" where
  "py_gt (PyNum x) (PyNum y) = Inr (y < x)"
| "py_gt _ _ = Inl TypeError"

fun py_max_from :: "pyval \<Rightarrow> pyval list \<Rightarrow> error + pyval" where
  "py_max_from best [] = Inr best"
| "py_max_from best (x # xs) =
     (case py_gt x best of
        Inl e \<Rightarrow> Inl e
      | Inr b \<Rightarrow> py_max_from (if b then x else best) xs)"

definition py_max :: "pyval list \<Rightarrow> pyval \<Rightarrow> error + pyval" where
  "py_max xs dflt = (case xs of [] \<Rightarrow> Inr dflt | x # rest \<Rightarrow> py_max_from x rest)"

fun py_mul :: "real \<Rightarrow> pyval \<Rightarrow> error + real" where
  "py_mul c (PyNum x) = Inr (c * x)"
| "py_mul c (PyDict d) = Inl TypeError"

text \<open>
  \<^verbatim>\<open>max(d, key=d.get)\<close>: the first key, in iteration order, whose value is largest;
  ValueError on an empty dict.
\<close>

fun argmax_from :: "action \<times> real \<Rightarrow> qentry \<Rightarrow> action \<times> real" where
  "argmax_from best [] = best"
| "argmax_from best (x # xs) = argmax_from (if snd best < snd x then x else best) xs"

definition py_max_key :: "qentry \<Rightarrow> error + action" where
  "py_max_key e = (case e of [] \<Rightarrow> Inl ValueError | x # xs \<Rightarrow> Inr (fst (argmax_from x xs)))"

section \<open>The operations\<close>

text \<open>
  An operation that can raise returns the outcome together with the state it leaves:
  what it assigned to \<^verbatim>\<open>self\<close> before the exception stays assigned.
\<close>

subsection \<open>\<^verbatim>\<open>update_trust\<close> (lines 124 to 127)\<close>

definition trust_of :: "controller \<Rightarrow> address \<Rightarrow> real" where
  "trust_of s node = dict_get (trust_values s) node 1"

definition update_trust :: "address \<Rightarrow> real \<Rightarrow> controller \<Rightarrow> controller" where
  "update_trust node success_rate s =
     s\<lparr>trust_values :=
         AList.update node (9 / 10 * dict_get (trust_values s) node 1 + 1 / 10 * success_rate)
           (trust_values s)\<rparr>"

subsection \<open>\<^verbatim>\<open>federated_decision\<close> (lines 72 to 82)\<close>

text \<open>
  \<open>flood\<close> is \<^verbatim>\<open>datapath.ofproto.OFPP_FLOOD\<close>, a constant of the OpenFlow library, and
  \<open>r\<close> is the number \<^verbatim>\<open>random.random()\<close> returns if it is called. \<open>init_global\<close> is
  lines 75 to 78.
\<close>

definition init_global :: "action \<Rightarrow> real \<Rightarrow> address \<Rightarrow> address \<Rightarrow> qtable \<Rightarrow> qtable" where
  "init_global flood r src dst g =
     (let g1 = init_key src g;
          m = dict_get g1 src []
      in if map_of m dst = None then AList.update src (AList.update dst [(flood, r)] m) g1 else g1)"

definition federated_decision ::
  "action \<Rightarrow> real \<Rightarrow> address \<Rightarrow> address \<Rightarrow> controller \<Rightarrow> (error + action) \<times> controller" where
  "federated_decision flood r src dst s =
     (let s1 = s\<lparr>global_q_values := init_global flood r src dst (global_q_values s)\<rparr>
      in case py_max_key (dict_get (dict_get (global_q_values s1) src []) dst []) of
           Inl e \<Rightarrow> (Inl e, s1)
         | Inr best_action \<Rightarrow>
             (Inr (if trust_of s1 src \<ge> 1 / 2 then best_action else flood), s1))"

subsection \<open>\<^verbatim>\<open>update_local_q_table\<close> (lines 84 to 97)\<close>

text \<open>
  \<open>next_max\<close> is line 95: the values of \<^verbatim>\<open>q_values[datapath_id][dst]\<close> are that
  source's per-destination entries, which are dicts.
\<close>

definition next_max :: "(datapath_id, qtable) dict \<Rightarrow> datapath_id \<Rightarrow> address \<Rightarrow> error + pyval" where
  "next_max q datapath_id dst =
     py_max (map PyDict (dict_values (dict_get (dict_get q datapath_id []) dst []))) (PyNum 0)"

text \<open>
  Lines 86 to 92, the three guarded initialisations, and the nested assignment
  \<^verbatim>\<open>q_values[datapath_id][src][dst][action] = v\<close> of line 96.
\<close>

definition init_entry ::
  "datapath_id \<Rightarrow> address \<Rightarrow> address \<Rightarrow> (datapath_id, qtable) dict \<Rightarrow> (datapath_id, qtable) dict" where
  "init_entry datapath_id src dst q =
     (let q1 = init_key datapath_id q;
          t = init_key src (dict_get q1 datapath_id []);
          m = init_key dst (dict_get t src [])
      in AList.update datapath_id (AList.update src m t) q1)"

definition set_value ::
  "datapath_id \<Rightarrow> address \<Rightarrow> address \<Rightarrow> action \<Rightarrow> real \<Rightarrow> (datapath_id, qtable) dict
     \<Rightarrow> (datapath_id, qtable) dict" where
  "set_value datapath_id src dst a v q =
     (let t = dict_get q datapath_id [];
          m = dict_get t src [];
          e = dict_get m dst []
      in AList.update datapath_id (AList.update src (AList.update dst (AList.update a v e) m) t) q)"

definition update_local_q_table ::
  "datapath_id \<Rightarrow> address \<Rightarrow> address \<Rightarrow> action \<Rightarrow> real \<Rightarrow> controller \<Rightarrow> (error + unit) \<times> controller" where
  "update_local_q_table datapath_id src dst a reward s =
     (let q3 = init_entry datapath_id src dst (q_values s);
          old_value = dict_get (dict_get (dict_get (dict_get q3 datapath_id []) src []) dst []) a 0
      in case next_max q3 datapath_id dst of
           Inl err \<Rightarrow> (Inl err, s\<lparr>q_values := q3\<rparr>)
         | Inr nm \<Rightarrow>
             (case py_mul discount_factor nm of
                Inl err \<Rightarrow> (Inl err, s\<lparr>q_values := q3\<rparr>)
              | Inr discounted \<Rightarrow>
                  (Inr (),
                   s\<lparr>q_values :=
                       set_value datapath_id src dst a
                         (old_value + learning_rate * (reward + discounted - old_value)) q3\<rparr>)))"

subsection \<open>\<^verbatim>\<open>aggregate_global_q_values\<close> (lines 99 to 116)\<close>

text \<open>
  The four nested loops, innermost first. Iterating the keys of a dict and subscripting
  it by each key is iterating its items (lemma \<open>keys_subscript_items\<close>). The deep copy
  of line 101 is bound to a local name that is never read.
\<close>

definition merge_action :: "qentry \<Rightarrow> action \<times> real \<Rightarrow> qentry" where
  "merge_action g aq =
     (case map_of g (fst aq) of
        None \<Rightarrow> AList.update (fst aq) (snd aq) g
      | Some old \<Rightarrow> AList.update (fst aq) ((old + snd aq) / 2) g)"

definition merge_dst :: "dstmap \<Rightarrow> address \<times> qentry \<Rightarrow> dstmap" where
  "merge_dst gm de =
     (let gm1 = init_key (fst de) gm
      in AList.update (fst de) (foldl merge_action (dict_get gm1 (fst de) []) (snd de)) gm1)"

definition merge_src :: "qtable \<Rightarrow> address \<times> dstmap \<Rightarrow> qtable" where
  "merge_src g sm =
     (let g1 = init_key (fst sm) g
      in AList.update (fst sm) (foldl merge_dst (dict_get g1 (fst sm) []) (snd sm)) g1)"

definition merge_table :: "qtable \<Rightarrow> qtable \<Rightarrow> qtable" where
  "merge_table g t = foldl merge_src g t"

definition aggregate_global_q_values :: "controller \<Rightarrow> controller" where
  "aggregate_global_q_values s =
     s\<lparr>global_q_values := foldl merge_table (global_q_values s) (dict_values (q_values s))\<rparr>"

subsection \<open>\<^verbatim>\<open>redistribute_global_model\<close> (lines 118 to 122)\<close>

text \<open>
  The state holds values, not references: storing the global table under a datapath
  stores a copy of it, which is what \<^verbatim>\<open>copy.deepcopy\<close> does. Assigning to a key that is
  present does not change the keys being iterated.
\<close>

definition redistribute_global_model :: "controller \<Rightarrow> controller" where
  "redistribute_global_model s =
     s\<lparr>q_values :=
         foldl (\<lambda>q dp_id. AList.update dp_id (global_q_values s) q) (q_values s)
           (map fst (q_values s))\<rparr>"

subsection \<open>\<^verbatim>\<open>should_aggregate_global_model\<close> and \<^verbatim>\<open>packet_in_handler\<close>\<close>

text \<open>
  Line 131, with \<open>u\<close> the number \<^verbatim>\<open>random.uniform(0, 1)\<close> returns, and the calls of
  \<^verbatim>\<open>packet_in_handler\<close> on the learning state (lines 50 and 64 to 70) for a packet with
  an Ethernet header. Building and sending the packet-out message (lines 52 to 61) is
  the OpenFlow library's work and is left out; an exception leaves the handler at the
  call that raised it.
\<close>

definition should_aggregate_global_model :: "real \<Rightarrow> bool" where
  "should_aggregate_global_model u = (u < 5 / 100)"

definition packet_in_handler ::
  "action \<Rightarrow> real \<Rightarrow> real \<Rightarrow> datapath_id \<Rightarrow> address \<Rightarrow> address \<Rightarrow> controller
     \<Rightarrow> (error + action) \<times> controller" where
  "packet_in_handler flood r u datapath_id src dst s =
     (case federated_decision flood r src dst s of
        (Inl e, s1) \<Rightarrow> (Inl e, s1)
      | (Inr a, s1) \<Rightarrow>
          (case update_local_q_table datapath_id src dst a 1 s1 of
             (Inl e, s2) \<Rightarrow> (Inl e, s2)
           | (Inr _, s2) \<Rightarrow>
               (let s3 = update_trust src (9 / 10) s2
                in (Inr a,
                    if should_aggregate_global_model u
                    then redistribute_global_model (aggregate_global_q_values s3)
                    else s3))))"

section \<open>Dict objects and references\<close>

text \<open>
  In Python a table is a dict object whose values are references to further dict
  objects, and two places can hold a reference to the same object. The only statement
  of the controller that stores a dict which exists already is line 121, and it stores
  \<^verbatim>\<open>copy.deepcopy(self.global_q_values)\<close>; every other assignment stores a float or a
  dict literal. To see what line 121 shares, it is modelled once more on a heap of
  dict objects: the entries (action to float), the per-source dicts (destination to a
  reference to an entry) and the tables (source to a reference to a per-source dict).
  A reference is an index into the list of objects of its kind, and a new object is
  appended. The statements about this heap are about closed heaps, in which no
  reference points outside the lists.
\<close>

record heap =
  entry_objs :: "qentry list"
  dstmap_objs :: "(address, nat) dict list"
  table_objs :: "(address, nat) dict list"

record object_state =
  objs :: heap
  q_refs :: "(datapath_id, nat) dict"
  global_ref :: nat
  trust_obj :: "(address, real) dict"

text \<open>The table a reference denotes, and the state of values an object state denotes.\<close>

definition dstmap_at :: "heap \<Rightarrow> nat \<Rightarrow> dstmap" where
  "dstmap_at h m = map (\<lambda>de. (fst de, entry_objs h ! snd de)) (dstmap_objs h ! m)"

definition table_at :: "heap \<Rightarrow> nat \<Rightarrow> qtable" where
  "table_at h t = map (\<lambda>sm. (fst sm, dstmap_at h (snd sm))) (table_objs h ! t)"

definition abstract :: "object_state \<Rightarrow> controller" where
  "abstract s =
     \<lparr>q_values = map (\<lambda>dr. (fst dr, table_at (objs s) (snd dr))) (q_refs s),
      global_q_values = table_at (objs s) (global_ref s),
      trust_values = trust_obj s\<rparr>"

text \<open>
  \<^verbatim>\<open>copy.deepcopy\<close> of a dict makes a new dict with the same keys, whose values are the
  deep copies of the values; floats and keys are immutable and are kept. The nested
  dicts of a table are reached through one reference each, so the memo that
  \<^verbatim>\<open>deepcopy\<close> keeps for objects it meets twice stays unused.
\<close>

fun copy_refs :: "(heap \<Rightarrow> nat \<Rightarrow> heap \<times> nat) \<Rightarrow> heap \<Rightarrow> ('k \<times> nat) list
    \<Rightarrow> heap \<times> ('k \<times> nat) list" where
  "copy_refs f h [] = (h, [])"
| "copy_refs f h (kr # krs) =
     (case f h (snd kr) of
        (h1, r') \<Rightarrow> (case copy_refs f h1 krs of (h2, krs') \<Rightarrow> (h2, (fst kr, r') # krs')))"

definition deepcopy_entry :: "heap \<Rightarrow> nat \<Rightarrow> heap \<times> nat" where
  "deepcopy_entry h e = (h\<lparr>entry_objs := entry_objs h @ [entry_objs h ! e]\<rparr>, length (entry_objs h))"

definition deepcopy_dstmap :: "heap \<Rightarrow> nat \<Rightarrow> heap \<times> nat" where
  "deepcopy_dstmap h m =
     (case copy_refs deepcopy_entry h (dstmap_objs h ! m) of
        (h1, items) \<Rightarrow> (h1\<lparr>dstmap_objs := dstmap_objs h1 @ [items]\<rparr>, length (dstmap_objs h1)))"

definition deepcopy_table :: "heap \<Rightarrow> nat \<Rightarrow> heap \<times> nat" where
  "deepcopy_table h t =
     (case copy_refs deepcopy_dstmap h (table_objs h ! t) of
        (h1, items) \<Rightarrow> (h1\<lparr>table_objs := table_objs h1 @ [items]\<rparr>, length (table_objs h1)))"

text \<open>Lines 120 and 121 on objects: one step of the loop, and the loop.\<close>

definition redistribute_step :: "object_state \<Rightarrow> datapath_id \<Rightarrow> object_state" where
  "redistribute_step s dp_id =
     (case deepcopy_table (objs s) (global_ref s) of
        (h1, r) \<Rightarrow> s\<lparr>objs := h1, q_refs := AList.update dp_id r (q_refs s)\<rparr>)"

definition redistribute_objects :: "object_state \<Rightarrow> object_state" where
  "redistribute_objects s = foldl redistribute_step s (map fst (q_refs s))"

text \<open>
  The objects of a table: its per-source dicts and their entries. A heap is closed when
  every reference in it points to an object of the heap, and a state when its own
  references do.
\<close>

definition dstmaps_of :: "heap \<Rightarrow> nat \<Rightarrow> nat set" where
  "dstmaps_of h t = snd ` set (table_objs h ! t)"

definition entries_in :: "heap \<Rightarrow> nat \<Rightarrow> nat set" where
  "entries_in h m = snd ` set (dstmap_objs h ! m)"

definition entries_of :: "heap \<Rightarrow> nat \<Rightarrow> nat set" where
  "entries_of h t = (\<Union>m \<in> dstmaps_of h t. entries_in h m)"

definition heap_closed :: "heap \<Rightarrow> bool" where
  "heap_closed h =
     ((\<forall>t < length (table_objs h). \<forall>m \<in> dstmaps_of h t. m < length (dstmap_objs h))
      \<and> (\<forall>m < length (dstmap_objs h). \<forall>e \<in> entries_in h m. e < length (entry_objs h)))"

definition state_closed :: "object_state \<Rightarrow> bool" where
  "state_closed s =
     (heap_closed (objs s) \<and> global_ref s < length (table_objs (objs s))
      \<and> (\<forall>r \<in> snd ` set (q_refs s). r < length (table_objs (objs s))))"

text \<open>
  A heap extends another when it has the same objects and new ones after them. Two
  tables are separate when they are different objects and share no nested object. A
  table is fresh when all its objects were allocated after a given heap.
\<close>

definition heap_extends :: "heap \<Rightarrow> heap \<Rightarrow> bool" where
  "heap_extends h h' = ((\<exists>es. entry_objs h' = entry_objs h @ es)
     \<and> (\<exists>ms. dstmap_objs h' = dstmap_objs h @ ms)
     \<and> (\<exists>ts. table_objs h' = table_objs h @ ts))"

definition separate :: "heap \<Rightarrow> nat \<Rightarrow> nat \<Rightarrow> bool" where
  "separate h t t' =
     (t \<noteq> t' \<and> dstmaps_of h t \<inter> dstmaps_of h t' = {} \<and> entries_of h t \<inter> entries_of h t' = {})"

definition fresh_table :: "heap \<Rightarrow> heap \<Rightarrow> nat \<Rightarrow> bool" where
  "fresh_table h0 h t =
     (length (table_objs h0) \<le> t \<and> t < length (table_objs h)
      \<and> dstmaps_of h t \<subseteq> {length (dstmap_objs h0) ..< length (dstmap_objs h)}
      \<and> entries_of h t \<subseteq> {length (entry_objs h0) ..< length (entry_objs h)})"

text \<open>
  The tables stored under the datapaths of \<open>K\<close> are copies made since the heap \<open>h0\<close>,
  no two of them sharing an object.
\<close>

definition copies_separate :: "heap \<Rightarrow> object_state \<Rightarrow> datapath_id set \<Rightarrow> bool" where
  "copies_separate h0 s K =
     ((\<forall>dp \<in> K. \<exists>r. map_of (q_refs s) dp = Some r \<and> fresh_table h0 (objs s) r)
      \<and> (\<forall>dp \<in> K. \<forall>dp' \<in> K. \<forall>r r'. dp \<noteq> dp' \<longrightarrow> map_of (q_refs s) dp = Some r
            \<longrightarrow> map_of (q_refs s) dp' = Some r' \<longrightarrow> separate (objs s) r r'))"

text \<open>
  A heap \<open>h2\<close> differs from \<open>h\<close> at most in the objects of table \<open>r\<close> and in objects
  that \<open>h\<close> does not have: what assignments into the table of one datapath can do.
\<close>

definition changes_only :: "heap \<Rightarrow> nat \<Rightarrow> heap \<Rightarrow> bool" where
  "changes_only h r h2 =
     ((\<forall>t < length (table_objs h). t \<noteq> r \<longrightarrow> table_objs h2 ! t = table_objs h ! t)
      \<and> (\<forall>m < length (dstmap_objs h). m \<notin> dstmaps_of h r \<longrightarrow> dstmap_objs h2 ! m = dstmap_objs h ! m)
      \<and> (\<forall>e < length (entry_objs h). e \<notin> entries_of h r \<longrightarrow> entry_objs h2 ! e = entry_objs h ! e))"

section \<open>Reachable states\<close>

text \<open>
  The states the controller gets into from the state \<^verbatim>\<open>__init__\<close> builds, by calls of
  its five operations in any order and with any arguments. What a call that raises has
  assigned stays assigned, so the state it leaves is one that later calls start from.
\<close>

inductive reachable :: "controller \<Rightarrow> bool" where
  init: "reachable init_controller"
| trust: "reachable s \<Longrightarrow> reachable (update_trust node success_rate s)"
| decision: "reachable s \<Longrightarrow> reachable (snd (federated_decision flood r src dst s))"
| update: "reachable s \<Longrightarrow> reachable (snd (update_local_q_table dp src dst a reward s))"
| aggregate: "reachable s \<Longrightarrow> reachable (aggregate_global_q_values s)"
| redistribute: "reachable s \<Longrightarrow> reachable (redistribute_global_model s)"

text \<open>Every dict of the state has distinct keys.\<close>

definition controller_ok :: "controller \<Rightarrow> bool" where
  "controller_ok s =
     (distinct (map fst (q_values s)) \<and> list_all (\<lambda>dt. dict_keys_distinct (snd dt)) (q_values s)
      \<and> dict_keys_distinct (global_q_values s) \<and> distinct (map fst (trust_values s)))"

section \<open>Notions used to state the properties\<close>

text \<open>The value a datapath's local table holds for a flow and an action, if any.\<close>

definition local_value ::
  "controller \<Rightarrow> datapath_id \<Rightarrow> address \<Rightarrow> address \<Rightarrow> action \<Rightarrow> real option" where
  "local_value s datapath_id src dst a =
     (case map_of (q_values s) datapath_id of None \<Rightarrow> None | Some t \<Rightarrow> value_of t src dst a)"

text \<open>
  The values the loops of \<^verbatim>\<open>aggregate_global_q_values\<close> meet for one key
  \<open>(src, dst, a)\<close>, in the order they meet them: datapath by datapath, and inside a
  table item by item. For tables with distinct keys, as every Python dict has, a table
  contributes its value at the key, or nothing.
\<close>

definition entry_values :: "qentry \<Rightarrow> action \<Rightarrow> real list" where
  "entry_values e a = map snd (filter (\<lambda>aq. fst aq = a) e)"

definition dstmap_values :: "dstmap \<Rightarrow> address \<Rightarrow> action \<Rightarrow> real list" where
  "dstmap_values m dst a =
     concat (map (\<lambda>de. if fst de = dst then entry_values (snd de) a else []) m)"

definition table_values :: "qtable \<Rightarrow> address \<Rightarrow> address \<Rightarrow> action \<Rightarrow> real list" where
  "table_values t src dst a =
     concat (map (\<lambda>sm. if fst sm = src then dstmap_values (snd sm) dst a else []) t)"

definition local_values ::
  "(datapath_id, qtable) dict \<Rightarrow> address \<Rightarrow> address \<Rightarrow> action \<Rightarrow> real list" where
  "local_values q src dst a = concat (map (\<lambda>t. table_values t src dst a) (dict_values q))"

text \<open>
  One merge into a global value that may be absent: copy the local value, or replace
  the global value by the mean of the two.
\<close>

fun merge_value :: "real option \<Rightarrow> real \<Rightarrow> real option" where
  "merge_value None q = Some q"
| "merge_value (Some old) q = Some ((old + q) / 2)"

text \<open>The numbers obtained from a set by copying one and averaging with further ones.\<close>

inductive_set averaged :: "real set \<Rightarrow> real set" for S :: "real set" where
  copied: "x \<in> S \<Longrightarrow> x \<in> averaged S"
| mean: "x \<in> averaged S \<Longrightarrow> y \<in> S \<Longrightarrow> (x + y) / 2 \<in> averaged S"


text \<open>The trust score of \<open>addr\<close> after \<open>n\<close> calls \<^verbatim>\<open>update_trust(addr, 0.0)\<close>.\<close>

definition trust_after :: "nat \<Rightarrow> address \<Rightarrow> controller \<Rightarrow> real" where
  "trust_after n addr s = trust_of ((update_trust addr 0 ^^ n) s) addr"

section \<open>Dict keys stay distinct\<close>

text \<open>
  An association list stands for a dict only while its keys are distinct. Every
  operation keeps them distinct, at every level of nesting, so all reachable states
  are states of dicts.
\<close>

lemma dict_keys_distinct_alt:
  "dict_keys_distinct t = (distinct (map fst t) \<and> list_all (\<lambda>sm. dstmap_keys_distinct (snd sm)) t)"
  by (simp add: dict_keys_distinct_def dstmap_keys_distinct_def)

lemma update_ok:
  "distinct (map fst d) \<Longrightarrow> list_all (\<lambda>kv. P (snd kv)) d \<Longrightarrow> P v
     \<Longrightarrow> distinct (map fst (AList.update k v d)) \<and> list_all (\<lambda>kv. P (snd kv)) (AList.update k v d)"
  by (induction d) (auto simp: distinct_update update_keys)

lemma dict_get_ok: "list_all (\<lambda>kv. P (snd kv)) d \<Longrightarrow> P dflt \<Longrightarrow> P (dict_get d k dflt)"
  by (auto simp: dict_get_def list_all_iff split: option.splits dest!: map_of_SomeD)

lemma init_key_ok:
  "distinct (map fst d) \<Longrightarrow> list_all (\<lambda>kv. P (snd kv)) d \<Longrightarrow> P []
     \<Longrightarrow> distinct (map fst (init_key k d)) \<and> list_all (\<lambda>kv. P (snd kv)) (init_key k d)"
  by (simp add: init_key_def update_ok)

lemma dstmap_keys_distinct_Nil: "dstmap_keys_distinct []"
  by (simp add: dstmap_keys_distinct_def)

lemma dict_keys_distinct_Nil: "dict_keys_distinct []"
  by (simp add: dict_keys_distinct_def)

lemma update_trust_ok: "controller_ok s \<Longrightarrow> controller_ok (update_trust node sr s)"
  by (simp add: controller_ok_def update_trust_def distinct_update)

lemma init_global_ok:
  assumes "dict_keys_distinct g"
  shows "dict_keys_distinct (init_global flood r src dst g)"
proof -
  let ?P = "\<lambda>m. dstmap_keys_distinct m"
  let ?g1 = "init_key src g"
  from assms have g: "distinct (map fst g)" "list_all (\<lambda>sm. ?P (snd sm)) g"
    by (simp_all add: dict_keys_distinct_alt)
  from init_key_ok[of g ?P, OF g dstmap_keys_distinct_Nil]
  have g1: "distinct (map fst ?g1)" "list_all (\<lambda>sm. ?P (snd sm)) ?g1"
    by simp_all
  have m: "?P (dict_get ?g1 src [])"
    using g1(2) dstmap_keys_distinct_Nil by (rule dict_get_ok)
  then have "?P (AList.update dst [(flood, r)] (dict_get ?g1 src []))"
    unfolding dstmap_keys_distinct_def
    using update_ok[of "dict_get ?g1 src []" "\<lambda>e. distinct (map fst e)" "[(flood, r)]" dst] by simp
  from update_ok[of ?g1 ?P, OF g1 this] g1 show ?thesis
    by (simp add: init_global_def Let_def dict_keys_distinct_alt)
qed

lemma federated_decision_ok:
  "controller_ok s \<Longrightarrow> controller_ok (snd (federated_decision flood r src dst s))"
  by (simp add: controller_ok_def federated_decision_def Let_def init_global_ok split: sum.splits)

lemma entry_update_ok:
  "dstmap_keys_distinct m \<Longrightarrow> distinct (map fst e) \<Longrightarrow> dstmap_keys_distinct (AList.update dst e m)"
  unfolding dstmap_keys_distinct_def
  using update_ok[of m "\<lambda>e. distinct (map fst e)" e dst] by simp

lemma dstmap_update_ok:
  "dict_keys_distinct t \<Longrightarrow> dstmap_keys_distinct m \<Longrightarrow> dict_keys_distinct (AList.update src m t)"
  unfolding dict_keys_distinct_alt
  using update_ok[of t dstmap_keys_distinct m src] by simp

lemma table_update_ok:
  "store_ok q \<Longrightarrow> dict_keys_distinct t \<Longrightarrow> store_ok (AList.update dp t q)"
  unfolding store_ok_def
  using update_ok[of q dict_keys_distinct t dp] by simp

lemma entry_get_ok: "dstmap_keys_distinct m \<Longrightarrow> distinct (map fst (dict_get m dst []))"
  unfolding dstmap_keys_distinct_def
  using dict_get_ok[of "\<lambda>e. distinct (map fst e)" m "[]" dst] by simp

lemma dstmap_get_ok: "dict_keys_distinct t \<Longrightarrow> dstmap_keys_distinct (dict_get t src [])"
  unfolding dict_keys_distinct_alt
  using dict_get_ok[of dstmap_keys_distinct t "[]" src] by (simp add: dstmap_keys_distinct_Nil)

lemma table_get_ok: "store_ok q \<Longrightarrow> dict_keys_distinct (dict_get q dp [])"
  unfolding store_ok_def
  using dict_get_ok[of dict_keys_distinct q "[]" dp] by (simp add: dict_keys_distinct_Nil)

lemma entry_init_ok: "dstmap_keys_distinct m \<Longrightarrow> dstmap_keys_distinct (init_key dst m)"
  by (simp add: init_key_def entry_update_ok)

lemma dstmap_init_ok: "dict_keys_distinct t \<Longrightarrow> dict_keys_distinct (init_key src t)"
  by (simp add: init_key_def dstmap_update_ok dstmap_keys_distinct_Nil)

lemma table_init_ok: "store_ok q \<Longrightarrow> store_ok (init_key dp q)"
  by (simp add: init_key_def table_update_ok dict_keys_distinct_Nil)

lemma init_entry_ok: "store_ok q \<Longrightarrow> store_ok (init_entry dp src dst q)"
  by (simp add: init_entry_def Let_def table_update_ok dstmap_update_ok table_init_ok
        dstmap_init_ok entry_init_ok table_get_ok dstmap_get_ok)

lemma set_value_ok: "store_ok q \<Longrightarrow> store_ok (set_value dp src dst a v q)"
  by (simp add: set_value_def Let_def table_update_ok dstmap_update_ok entry_update_ok
        table_get_ok dstmap_get_ok entry_get_ok distinct_update)

lemma controller_ok_store:
  "controller_ok s = (store_ok (q_values s) \<and> dict_keys_distinct (global_q_values s)
      \<and> distinct (map fst (trust_values s)))"
  by (simp add: controller_ok_def store_ok_def)

lemma update_local_q_table_ok:
  "controller_ok s \<Longrightarrow> controller_ok (snd (update_local_q_table dp src dst a rw s))"
  by (simp add: controller_ok_store update_local_q_table_def Let_def init_entry_ok set_value_ok
        split: sum.splits)

lemma merge_action_ok: "distinct (map fst g) \<Longrightarrow> distinct (map fst (merge_action g aq))"
  by (simp add: merge_action_def distinct_update split: option.splits)

lemma foldl_merge_action_ok: "distinct (map fst g) \<Longrightarrow> distinct (map fst (foldl merge_action g e))"
  by (induction e arbitrary: g) (simp_all add: merge_action_ok)

lemma merge_dst_ok: "dstmap_keys_distinct gm \<Longrightarrow> dstmap_keys_distinct (merge_dst gm de)"
  by (simp add: merge_dst_def Let_def entry_update_ok entry_init_ok entry_get_ok foldl_merge_action_ok)

lemma foldl_merge_dst_ok: "dstmap_keys_distinct gm \<Longrightarrow> dstmap_keys_distinct (foldl merge_dst gm m)"
  by (induction m arbitrary: gm) (simp_all add: merge_dst_ok)

lemma merge_src_ok: "dict_keys_distinct g \<Longrightarrow> dict_keys_distinct (merge_src g sm)"
  by (simp add: merge_src_def Let_def dstmap_update_ok dstmap_init_ok dstmap_get_ok foldl_merge_dst_ok)

lemma merge_table_ok: "dict_keys_distinct g \<Longrightarrow> dict_keys_distinct (merge_table g t)"
  unfolding merge_table_def by (induction t arbitrary: g) (simp_all add: merge_src_ok)

lemma foldl_merge_table_ok: "dict_keys_distinct g \<Longrightarrow> dict_keys_distinct (foldl merge_table g ts)"
  by (induction ts arbitrary: g) (simp_all add: merge_table_ok)

lemma aggregate_ok: "controller_ok s \<Longrightarrow> controller_ok (aggregate_global_q_values s)"
  by (simp add: controller_ok_def aggregate_global_q_values_def foldl_merge_table_ok)

lemma foldl_update_ok:
  "store_ok q \<Longrightarrow> dict_keys_distinct g \<Longrightarrow> store_ok (foldl (\<lambda>q k. AList.update k g q) q ks)"
  by (induction ks arbitrary: q) (simp_all add: table_update_ok)

lemma redistribute_ok: "controller_ok s \<Longrightarrow> controller_ok (redistribute_global_model s)"
  by (simp add: controller_ok_store redistribute_global_model_def foldl_update_ok)

lemma reachable_keys_distinct: "reachable s \<Longrightarrow> controller_ok s"
proof (induction rule: reachable.induct)
  case init
  then show ?case by (simp add: controller_ok_def init_controller_def dict_keys_distinct_def)
next
  case (trust s node success_rate)
  then show ?case by (simp add: update_trust_ok)
next
  case (decision s flood r src dst)
  then show ?case by (simp add: federated_decision_ok)
next
  case (update s dp src dst a reward)
  then show ?case by (simp add: update_local_q_table_ok)
next
  case (aggregate s)
  then show ?case by (simp add: aggregate_ok)
next
  case (redistribute s)
  then show ?case by (simp add: redistribute_ok)
qed

text \<open>
  With distinct keys, iterating the keys of a dict and subscripting the dict by each of
  them meets its items, one after the other.
\<close>

lemma keys_subscript_items:
  "distinct (map fst d) \<Longrightarrow> map (\<lambda>k. (k, dict_get d k dflt)) (map fst d) = d"
proof (induction d)
  case Nil
  then show ?case by simp
next
  case (Cons kv d)
  have "dict_get (kv # d) k dflt = dict_get d k dflt" if "k \<in> fst ` set d" for k
  proof -
    from Cons.prems have "fst kv \<notin> fst ` set d" by simp
    with that have "k \<noteq> fst kv" by blast
    then show ?thesis by (cases kv) (simp add: dict_get_def)
  qed
  then have "map (\<lambda>k. (k, dict_get (kv # d) k dflt)) (map fst d)
      = map (\<lambda>k. (k, dict_get d k dflt)) (map fst d)"
    by simp
  with Cons show ?case
    by (cases kv) (simp add: dict_get_def)
qed

lemma reachable_update_trust_funpow:
  "reachable s \<Longrightarrow> reachable ((update_trust node success_rate ^^ n) s)"
  by (induction n) (simp_all add: reachable.trust)

section \<open>Trust scores\<close>

lemma init_key_present: "map_of (init_key k d) k \<noteq> None"
  by (simp add: init_key_def update_conv')

lemma trust_of_update_trust:
  "trust_of (update_trust addr success_rate s) addr
     = 9 / 10 * trust_of s addr + 1 / 10 * success_rate"
  by (simp add: trust_of_def update_trust_def dict_get_def update_conv')

lemma update_trust_range:
  "0 \<le> trust_of s addr \<Longrightarrow> trust_of s addr \<le> 1 \<Longrightarrow> 0 \<le> success_rate
     \<Longrightarrow> success_rate \<le> 1
     \<Longrightarrow> 0 \<le> trust_of (update_trust addr success_rate s) addr
         \<and> trust_of (update_trust addr success_rate s) addr \<le> 1"
  by (simp add: trust_of_update_trust)

lemma trust_after_power: "trust_after n addr s = (9 / 10) ^ n * trust_of s addr"
  by (induction n) (simp_all add: trust_after_def trust_of_update_trust)



text \<open>
  C8. For an address with no trust entry, whose score therefore defaults to 1.0, one
  \<^verbatim>\<open>update_trust(addr, 1.0)\<close> leaves the score at exactly 1.0.
\<close>

theorem update_trust_fixed_point:
  "map_of (trust_values s) addr = None \<Longrightarrow> trust_of (update_trust addr 1 s) addr = 1"
  by (simp add: trust_of_def update_trust_def dict_get_def update_conv')

theorem update_trust_fixed_point_witness:
  "map_of (trust_values init_controller) ''00:00:00:00:00:01'' = None
   \<and> trust_of (update_trust ''00:00:00:00:00:01'' 1 init_controller) ''00:00:00:00:00:01'' = 1"
  using update_trust_fixed_point [of init_controller "''00:00:00:00:00:01''"]
  by (simp add: init_controller_def)

text \<open>
  C10. \<^verbatim>\<open>update_trust(addr, success_rate)\<close> changes the trust entry of \<open>addr\<close> only:
  the entry of every other address, present or absent, is what it was, and so are the
  local and the global Q-tables.
\<close>

theorem update_trust_frame:
  "(\<forall>b. b \<noteq> addr \<longrightarrow>
        map_of (trust_values (update_trust addr success_rate s)) b = map_of (trust_values s) b)
   \<and> q_values (update_trust addr success_rate s) = q_values s
   \<and> global_q_values (update_trust addr success_rate s) = global_q_values s"
  by (simp add: update_trust_def update_conv')

theorem update_trust_frame_witness:
  "''00:00:00:00:00:02'' \<noteq> ''00:00:00:00:00:01''
   \<and> map_of (trust_values (update_trust ''00:00:00:00:00:01'' (9 / 10)
        \<lparr>q_values = [], global_q_values = [], trust_values = [(''00:00:00:00:00:02'', 1 / 2)]\<rparr>))
        ''00:00:00:00:00:02'' = Some (1 / 2)"
  using update_trust_frame [of "''00:00:00:00:00:01''" "9 / 10"
      "\<lparr>q_values = [], global_q_values = [], trust_values = [(''00:00:00:00:00:02'', 1 / 2)]\<rparr>"]
  by simp

section \<open>Aggregation\<close>

text \<open>
  C9. \<^verbatim>\<open>aggregate_global_q_values\<close> leaves every local table and the trust table as
  they were: it writes the global table only.
\<close>

theorem aggregate_frame:
  "q_values (aggregate_global_q_values s) = q_values s
   \<and> trust_values (aggregate_global_q_values s) = trust_values s"
  by (simp add: aggregate_global_q_values_def)

lemma map_of_merge_action:
  "map_of (merge_action g aq) a
     = (if fst aq = a then merge_value (map_of g a) (snd aq) else map_of g a)"
  by (auto simp: merge_action_def update_conv' split: option.splits)

lemma map_of_foldl_merge_action:
  "map_of (foldl merge_action g e) a = foldl merge_value (map_of g a) (entry_values e a)"
  by (induction e arbitrary: g) (simp_all add: entry_values_def map_of_merge_action)

lemma dst_value_of_merge_dst:
  "dst_value_of (merge_dst gm de) dst a =
     (if fst de = dst then foldl merge_value (dst_value_of gm dst a) (entry_values (snd de) a) else dst_value_of gm dst a)"
  by (auto simp: merge_dst_def dst_value_of_def Let_def update_conv' init_key_def dict_get_def
        map_of_foldl_merge_action split: option.splits)

lemma dst_value_of_foldl_merge_dst:
  "dst_value_of (foldl merge_dst gm m) dst a = foldl merge_value (dst_value_of gm dst a) (dstmap_values m dst a)"
  by (induction m arbitrary: gm) (simp_all add: dstmap_values_def dst_value_of_merge_dst)

lemma value_of_by_dst: "value_of t src dst a = (case map_of t src of None \<Rightarrow> None | Some m \<Rightarrow> dst_value_of m dst a)"
  by (simp add: value_of_def entry_of_def dst_value_of_def split: option.splits)

lemma dst_value_of_Nil: "dst_value_of [] dst a = None"
  by (simp add: dst_value_of_def)

lemma value_of_merge_src:
  "value_of (merge_src g sm) src dst a =
     (if fst sm = src then foldl merge_value (value_of g src dst a) (dstmap_values (snd sm) dst a) else value_of g src dst a)"
  by (auto simp: merge_src_def value_of_by_dst Let_def update_conv' init_key_def dict_get_def
        dst_value_of_foldl_merge_dst dst_value_of_Nil split: option.splits)

lemma value_of_merge_table:
  "value_of (merge_table g t) src dst a = foldl merge_value (value_of g src dst a) (table_values t src dst a)"
  unfolding merge_table_def
  by (induction t arbitrary: g) (simp_all add: table_values_def value_of_merge_src)

lemma value_of_foldl_merge_table:
  "value_of (foldl merge_table g ts) src dst a =
     foldl merge_value (value_of g src dst a) (concat (map (\<lambda>t. table_values t src dst a) ts))"
  by (induction ts arbitrary: g) (simp_all add: value_of_merge_table)

lemma value_of_aggregate:
  "value_of (global_q_values (aggregate_global_q_values s)) src dst a =
     foldl merge_value (value_of (global_q_values s) src dst a) (local_values (q_values s) src dst a)"
  by (simp add: aggregate_global_q_values_def local_values_def value_of_foldl_merge_table)

text \<open>With distinct keys, a table meets a key at most once, with the value it holds there.\<close>

lemma entry_values_distinct:
  "distinct (map fst e) \<Longrightarrow> entry_values e a = (case map_of e a of None \<Rightarrow> [] | Some v \<Rightarrow> [v])"
proof (induction e)
  case Nil
  then show ?case by (simp add: entry_values_def)
next
  case (Cons x e)
  show ?case
  proof (cases "fst x = a")
    case True
    with Cons.prems have "a \<notin> fst ` set e" by auto
    then have "filter (\<lambda>aq. fst aq = a) e = []"
      by (auto simp: filter_empty_conv)
    with True show ?thesis by (cases x) (simp add: entry_values_def)
  next
    case False
    with Cons show ?thesis by (cases x) (simp add: entry_values_def)
  qed
qed

lemma dstmap_values_distinct:
  "distinct (map fst m) \<Longrightarrow> list_all (\<lambda>de. distinct (map fst (snd de))) m \<Longrightarrow>
     dstmap_values m dst a = (case dst_value_of m dst a of None \<Rightarrow> [] | Some v \<Rightarrow> [v])"
proof (induction m)
  case Nil
  then show ?case by (simp add: dstmap_values_def dst_value_of_def)
next
  case (Cons x m)
  show ?case
  proof (cases "fst x = dst")
    case True
    with Cons.prems have "dst \<notin> fst ` set m" by auto
    then have "concat (map (\<lambda>de. if fst de = dst then entry_values (snd de) a else []) m) = []"
      by (induction m) auto
    with True Cons.prems show ?thesis
      by (cases x) (simp add: dstmap_values_def dst_value_of_def entry_values_distinct)
  next
    case False
    with Cons show ?thesis by (cases x) (simp add: dstmap_values_def dst_value_of_def)
  qed
qed

lemma table_values_distinct:
  "dict_keys_distinct t \<Longrightarrow>
     table_values t src dst a = (case value_of t src dst a of None \<Rightarrow> [] | Some v \<Rightarrow> [v])"
  unfolding dict_keys_distinct_def
proof (induction t)
  case Nil
  then show ?case by (simp add: table_values_def value_of_by_dst)
next
  case (Cons x t)
  show ?case
  proof (cases "fst x = src")
    case True
    with Cons.prems have "src \<notin> fst ` set t" by auto
    then have "concat (map (\<lambda>sm. if fst sm = src then dstmap_values (snd sm) dst a else []) t) = []"
      by (induction t) auto
    with True Cons.prems show ?thesis
      by (cases x) (simp add: table_values_def value_of_by_dst dstmap_values_distinct)
  next
    case False
    with Cons show ?thesis by (cases x) (simp add: table_values_def value_of_by_dst)
  qed
qed

lemma foldl_merge_value_averaged:
  "foldl merge_value g vs = Some v \<Longrightarrow> v \<in> averaged (set_option g \<union> set vs)"
proof (induction vs arbitrary: v rule: rev_induct)
  case Nil
  then show ?case by (auto intro: averaged.copied)
next
  case (snoc x xs)
  show ?case
  proof (cases "foldl merge_value g xs")
    case None
    with snoc.prems have "v = x" by simp
    then show ?thesis by (auto intro: averaged.copied)
  next
    case (Some w)
    with snoc.prems have v: "v = (w + x) / 2" by simp
    from snoc.IH[OF Some] have "w \<in> averaged (set_option g \<union> set xs)" .
    then have "w \<in> averaged (set_option g \<union> set (xs @ [x]))"
    proof (induction rule: averaged.induct)
      case (copied y) then show ?case by (auto intro: averaged.copied)
    next
      case (mean y z) then show ?case by (auto intro: averaged.mean)
    qed
    then show ?thesis unfolding v by (rule averaged.mean) simp
  qed
qed

text \<open>
  C4. \<^verbatim>\<open>aggregate_global_q_values\<close> merges the local values into the global table by
  sequential pairwise averaging: the global value at a key \<open>(src, dst, a)\<close> afterwards
  is the value before, merged in turn with each local value at that key in iteration
  order, where one merge copies the local value if the global one is absent and
  otherwise replaces the global value by the mean of the two. For two datapaths that
  report 2.0 and then 4.0 for action \<open>X\<close> of flow \<open>(A, B)\<close>, and a global table with no
  value at that key, the global value afterwards is (2.0 + 4.0) / 2 = 3.0.
\<close>

theorem aggregate_sequential_average:
  "value_of (global_q_values (aggregate_global_q_values s)) src dst a
     = foldl merge_value (value_of (global_q_values s) src dst a)
         (local_values (q_values s) src dst a)
   \<and> merge_value None q = Some q
   \<and> merge_value (Some g) q = Some ((g + q) / 2)
   \<and> (q_values s = [(dp1, t1), (dp2, t2)] \<and> dict_keys_distinct t1 \<and> dict_keys_distinct t2
        \<and> value_of t1 A B X = Some 2 \<and> value_of t2 A B X = Some 4
        \<and> value_of (global_q_values s) A B X = None
      \<longrightarrow> value_of (global_q_values (aggregate_global_q_values s)) A B X = Some ((2 + 4) / 2)
          \<and> (2 + 4) / 2 = (3 :: real))"
  by (simp add: value_of_aggregate local_values_def dict_values_def table_values_distinct)

theorem aggregate_sequential_average_witness:
  "value_of (global_q_values
      \<lparr>q_values = [(1, [(''A'', [(''B'', [(5, 2)])])]), (2, [(''A'', [(''B'', [(5, 4)])])])],
       global_q_values = [], trust_values = []\<rparr>) ''A'' ''B'' 5 = None
   \<and> value_of (global_q_values (aggregate_global_q_values
      \<lparr>q_values = [(1, [(''A'', [(''B'', [(5, 2)])])]), (2, [(''A'', [(''B'', [(5, 4)])])])],
       global_q_values = [], trust_values = []\<rparr>)) ''A'' ''B'' 5 = Some 3"
proof -
  let ?t1 = "[(''A'', [(''B'', [(5, 2)])])] :: qtable"
  let ?t2 = "[(''A'', [(''B'', [(5, 4)])])] :: qtable"
  let ?s = "\<lparr>q_values = [(1, ?t1), (2, ?t2)], global_q_values = [], trust_values = []\<rparr>"
  have h: "q_values ?s = [(1, ?t1), (2, ?t2)] \<and> dict_keys_distinct ?t1 \<and> dict_keys_distinct ?t2
        \<and> value_of ?t1 ''A'' ''B'' 5 = Some 2 \<and> value_of ?t2 ''A'' ''B'' 5 = Some 4
        \<and> value_of (global_q_values ?s) ''A'' ''B'' 5 = None"
    by (simp add: dict_keys_distinct_def value_of_def entry_of_def)
  have "value_of (global_q_values (aggregate_global_q_values ?s)) ''A'' ''B'' 5 = Some ((2 + 4) / 2)"
    using aggregate_sequential_average
      [of ?s "''A''" "''B''" 5 0 0 1 ?t1 2 ?t2 "''A''" "''B''" 5] h
    by blast
  with h show ?thesis
    by simp
qed

section \<open>The Q-learning update\<close>

lemma update_local_q_table_global:
  "global_q_values (snd (update_local_q_table dp src dst a rw s)) = global_q_values s"
  by (simp add: update_local_q_table_def Let_def split: sum.splits)

lemma update_local_q_table_trust:
  "trust_values (snd (update_local_q_table dp src dst a rw s)) = trust_values s"
  by (simp add: update_local_q_table_def Let_def split: sum.splits)




text \<open>
  Line 95 yields 0 when \<^verbatim>\<open>q_values[datapath_id].get(dst, {})\<close> is empty, the only
  per-destination dict when there is one, and raises when there are more. Line 96 then
  multiplies what it got by the discount factor, so the call returns exactly when that
  dict is empty.
\<close>

lemma next_max_cases:
  "next_max q dp dst =
     (case dict_get (dict_get q dp []) dst [] of
        [] \<Rightarrow> Inr (PyNum 0)
      | [de] \<Rightarrow> Inr (PyDict (snd de))
      | de # de' # rest \<Rightarrow> Inl TypeError)"
  by (simp add: next_max_def py_max_def dict_values_def split: list.splits)

lemma update_local_q_table_outcome:
  "fst (update_local_q_table dp src dst a rw s) =
     (if dict_get (dict_get (init_entry dp src dst (q_values s)) dp []) dst [] = []
      then Inr () else Inl TypeError)"
  by (simp add: update_local_q_table_def Let_def next_max_cases split: list.splits)

lemma init_entry_src_nonempty:
  "dict_get (dict_get (init_entry dp src dst q) dp []) src [] \<noteq> []"
  by (auto simp: init_entry_def Let_def init_key_def dict_get_def update_conv' split: option.splits)

lemma update_local_q_table_same_address:
  "fst (update_local_q_table dp addr addr a rw s) = Inl TypeError"
  by (simp add: update_local_q_table_outcome init_entry_src_nonempty)

text \<open>
  C1. The claim is that every core operation returns in every reachable state and on
  every input, also when \<open>dst\<close> is a source key of the same datapath's table. The code
  does not: after \<^verbatim>\<open>update_local_q_table(1, A, B, FLOOD, 1)\<close> on a fresh controller,
  which returns, the call \<^verbatim>\<open>update_local_q_table(1, B, A, FLOOD, 1)\<close> raises TypeError.
\<close>

theorem update_local_q_table_raises_type_error:
  "fst (update_local_q_table 1 ''00:00:00:00:00:01'' ''00:00:00:00:00:02'' 4294967291 1
          init_controller) = Inr ()
   \<and> reachable
        (snd (update_local_q_table 1 ''00:00:00:00:00:01'' ''00:00:00:00:00:02'' 4294967291 1
               init_controller))
   \<and> fst (update_local_q_table 1 ''00:00:00:00:00:02'' ''00:00:00:00:00:01'' 4294967291 1
        (snd (update_local_q_table 1 ''00:00:00:00:00:01'' ''00:00:00:00:00:02'' 4294967291 1
               init_controller)))
      = Inl TypeError"
proof -
  have first:
    "update_local_q_table 1 ''00:00:00:00:00:01'' ''00:00:00:00:00:02'' 4294967291 1 init_controller
     = (Inr (),
        \<lparr>q_values = [(1, [(''00:00:00:00:00:01'', [(''00:00:00:00:00:02'', [(4294967291, 6 / 10)])])])],
         global_q_values = [], trust_values = []\<rparr>)"
    by (simp add: update_local_q_table_def init_controller_def init_entry_def set_value_def
          init_key_def dict_get_def next_max_cases Let_def learning_rate_def discount_factor_def)
  have reach:
    "reachable
      (snd (update_local_q_table 1 ''00:00:00:00:00:01'' ''00:00:00:00:00:02'' 4294967291 1
             init_controller))"
    by (intro reachable.update reachable.init)
  have second:
    "fst (update_local_q_table 1 ''00:00:00:00:00:02'' ''00:00:00:00:00:01'' 4294967291 1
        \<lparr>q_values = [(1, [(''00:00:00:00:00:01'', [(''00:00:00:00:00:02'', [(4294967291, 6 / 10)])])])],
         global_q_values = [], trust_values = []\<rparr>) = Inl TypeError"
    by (simp add: update_local_q_table_def init_entry_def init_key_def dict_get_def
          next_max_cases Let_def)
  show ?thesis
    using reach second unfolding first by simp
qed

text \<open>
  The handler reaches that call by itself: a packet from A to B followed by the reply
  from B to A at the same switch.
\<close>

lemma packet_in_handler_reply_raises:
  "fst (packet_in_handler 4294967291 (1 / 4) (1 / 2) 1 ''00:00:00:00:00:01'' ''00:00:00:00:00:02''
          init_controller) = Inr 4294967291
   \<and> fst (packet_in_handler 4294967291 (1 / 4) (1 / 2) 1 ''00:00:00:00:00:02'' ''00:00:00:00:00:01''
        (snd (packet_in_handler 4294967291 (1 / 4) (1 / 2) 1 ''00:00:00:00:00:01''
               ''00:00:00:00:00:02'' init_controller)))
      = Inl TypeError"
proof -
  let ?A = "''00:00:00:00:00:01''" and ?B = "''00:00:00:00:00:02''"
  let ?F = "4294967291 :: nat"
  let ?s1 = "\<lparr>q_values = [], global_q_values = [(?A, [(?B, [(?F, 1 / 4)])])], trust_values = []\<rparr>"
  let ?s2 = "\<lparr>q_values = [(1, [(?A, [(?B, [(?F, 6 / 10)])])])],
              global_q_values = [(?A, [(?B, [(?F, 1 / 4)])])], trust_values = []\<rparr>"
  let ?s3 = "\<lparr>q_values = [(1, [(?A, [(?B, [(?F, 6 / 10)])])])],
              global_q_values = [(?A, [(?B, [(?F, 1 / 4)])])],
              trust_values = [(?A, 99 / 100)]\<rparr>"
  let ?s4 = "\<lparr>q_values = [(1, [(?A, [(?B, [(?F, 6 / 10)])])])],
              global_q_values = [(?A, [(?B, [(?F, 1 / 4)])]), (?B, [(?A, [(?F, 1 / 4)])])],
              trust_values = [(?A, 99 / 100)]\<rparr>"
  have d1: "federated_decision ?F (1 / 4) ?A ?B init_controller = (Inr ?F, ?s1)"
    by (simp add: federated_decision_def init_global_def init_controller_def init_key_def
          dict_get_def py_max_key_def trust_of_def Let_def)
  have u1: "update_local_q_table 1 ?A ?B ?F 1 ?s1 = (Inr (), ?s2)"
    by (simp add: update_local_q_table_def init_entry_def set_value_def init_key_def dict_get_def
          next_max_cases Let_def learning_rate_def discount_factor_def)
  have t1: "update_trust ?A (9 / 10) ?s2 = ?s3"
    by (simp add: update_trust_def dict_get_def)
  have na: "\<not> should_aggregate_global_model (1 / 2)"
    by (simp add: should_aggregate_global_model_def)
  have p1: "packet_in_handler ?F (1 / 4) (1 / 2) 1 ?A ?B init_controller = (Inr ?F, ?s3)"
    by (simp only: packet_in_handler_def d1 u1 t1 na prod.case sum.case Let_def if_False)
  have d2: "federated_decision ?F (1 / 4) ?B ?A ?s3 = (Inr ?F, ?s4)"
    by (simp add: federated_decision_def init_global_def init_key_def dict_get_def
          py_max_key_def trust_of_def Let_def)
  have u2: "fst (update_local_q_table 1 ?B ?A ?F 1 ?s4) = Inl TypeError"
    by (simp add: update_local_q_table_outcome init_entry_def init_key_def dict_get_def Let_def)
  have p2: "fst (packet_in_handler ?F (1 / 4) (1 / 2) 1 ?B ?A ?s3) = Inl TypeError"
    using u2 unfolding packet_in_handler_def d2
    by (cases "update_local_q_table 1 ?B ?A ?F 1 ?s4") auto
  show ?thesis
    by (simp only: p1 p2 fst_conv snd_conv simp_thms)
qed

text \<open>
  The rule of lines 94 to 96 in general: when line 95 yields 0, the value stored
  afterwards is \<open>old + 0.6 * (1 + 0.95 * 0 - old)\<close>, where \<open>old\<close> is the value the local
  table of the datapath held, or 0 if it held none.
\<close>

lemma init_entry_other_source:
  "src' \<noteq> src \<Longrightarrow>
     dict_get (dict_get (init_entry dp src dst q) dp []) src' []
       = dict_get (dict_get q dp []) src' []"
  by (simp add: init_entry_def Let_def init_key_def dict_get_def update_conv' split: option.splits)

lemma next_max_init_entry:
  "src \<noteq> dst \<Longrightarrow> next_max (init_entry dp src dst q) dp dst = next_max q dp dst"
  by (simp add: next_max_def init_entry_other_source)

lemma init_entry_old_value:
  "dict_get (dict_get (dict_get (dict_get (init_entry dp src dst (q_values s)) dp []) src []) dst [])
       a 0
     = (case local_value s dp src dst a of None \<Rightarrow> 0 | Some v \<Rightarrow> v)"
  by (simp add: init_entry_def Let_def init_key_def dict_get_def update_conv' local_value_def
        value_of_def entry_of_def split: option.splits)

lemma local_value_set_value:
  "local_value (s\<lparr>q_values := set_value dp src dst a x q\<rparr>) dp src dst a = Some x"
  by (simp add: local_value_def set_value_def Let_def update_conv' value_of_def entry_of_def)

lemma update_local_q_table_rule:
  assumes "src \<noteq> dst" and "next_max (q_values s) dp dst = Inr (PyNum 0)"
  shows "fst (update_local_q_table dp src dst a 1 s) = Inr ()
     \<and> local_value (snd (update_local_q_table dp src dst a 1 s)) dp src dst a
         = Some ((case local_value s dp src dst a of None \<Rightarrow> 0 | Some v \<Rightarrow> v)
                 + 6 / 10 * (1 + 95 / 100 * 0
                     - (case local_value s dp src dst a of None \<Rightarrow> 0 | Some v \<Rightarrow> v)))"
proof -
  have nm: "next_max (init_entry dp src dst (q_values s)) dp dst = Inr (PyNum 0)"
    using assms by (simp add: next_max_init_entry)
  show ?thesis
    by (simp add: update_local_q_table_def Let_def nm init_entry_old_value local_value_set_value
          learning_rate_def discount_factor_def)
qed

text \<open>
  C3 as stated fails. The random value with which \<^verbatim>\<open>federated_decision\<close> initialises
  the fallback action of a flow is stored in the global table, and
  \<^verbatim>\<open>update_local_q_table\<close> reads the old value from the local table of the datapath.
  On a fresh controller, after the decision for the flow has initialised the fallback
  action with \<open>v = 0.25\<close>, line 95 yields 0 and the update stores \<open>0.6\<close>, which is not
  \<open>v + 0.6 * (1 + 0.95 * 0 - v) = 0.7\<close>.
\<close>

theorem update_local_q_table_after_decision:
  "value_of
      (global_q_values (snd (federated_decision 4294967291 (1 / 4) ''00:00:00:00:00:01''
         ''00:00:00:00:00:02'' init_controller)))
      ''00:00:00:00:00:01'' ''00:00:00:00:00:02'' 4294967291 = Some (1 / 4)
   \<and> next_max
        (q_values (snd (federated_decision 4294967291 (1 / 4) ''00:00:00:00:00:01''
           ''00:00:00:00:00:02'' init_controller)))
        1 ''00:00:00:00:00:02'' = Inr (PyNum 0)
   \<and> local_value
        (snd (update_local_q_table 1 ''00:00:00:00:00:01'' ''00:00:00:00:00:02'' 4294967291 1
           (snd (federated_decision 4294967291 (1 / 4) ''00:00:00:00:00:01''
              ''00:00:00:00:00:02'' init_controller))))
        1 ''00:00:00:00:00:01'' ''00:00:00:00:00:02'' 4294967291 = Some (6 / 10)
   \<and> (6 / 10 :: real) \<noteq> 1 / 4 + 6 / 10 * (1 + 95 / 100 * 0 - 1 / 4)"
proof -
  let ?A = "''00:00:00:00:00:01''" and ?B = "''00:00:00:00:00:02''"
  let ?F = "4294967291 :: nat"
  let ?s1 = "\<lparr>q_values = [], global_q_values = [(?A, [(?B, [(?F, 1 / 4)])])], trust_values = []\<rparr>"
  let ?s2 = "\<lparr>q_values = [(1, [(?A, [(?B, [(?F, 6 / 10)])])])],
              global_q_values = [(?A, [(?B, [(?F, 1 / 4)])])], trust_values = []\<rparr>"
  have d1: "federated_decision ?F (1 / 4) ?A ?B init_controller = (Inr ?F, ?s1)"
    by (simp add: federated_decision_def init_global_def init_controller_def init_key_def
          dict_get_def py_max_key_def trust_of_def Let_def)
  have u1: "update_local_q_table 1 ?A ?B ?F 1 ?s1 = (Inr (), ?s2)"
    by (simp add: update_local_q_table_def init_entry_def set_value_def init_key_def dict_get_def
          next_max_cases Let_def learning_rate_def discount_factor_def)
  show ?thesis
    unfolding d1 snd_conv u1
    by (simp add: value_of_def entry_of_def local_value_def next_max_cases dict_get_def)
qed

text \<open>
  C3, as the code has it. In a state where the local table of \<open>dp1\<close> holds the value
  \<open>v\<close> for flow \<open>(A, B)\<close> and action \<open>F\<close>, and where line 95 yields 0, the call
  \<^verbatim>\<open>update_local_q_table(dp1, A, B, F, 1)\<close> returns and leaves
  \<open>v + 0.6 * (1 + 0.95 * 0 - v)\<close> at that place.
\<close>

theorem update_local_q_table_value:
  assumes "local_value s dp1 A B F = Some v"
    and "next_max (q_values s) dp1 B = Inr (PyNum 0)"
  shows "fst (update_local_q_table dp1 A B F 1 s) = Inr ()
     \<and> local_value (snd (update_local_q_table dp1 A B F 1 s)) dp1 A B F
         = Some (v + 6 / 10 * (1 + 95 / 100 * 0 - v))"
proof -
  from assms(1) obtain t m e
    where t: "map_of (q_values s) dp1 = Some t" and m: "map_of t A = Some m"
      and e: "map_of m B = Some e" and v: "map_of e F = Some v"
    by (auto simp: local_value_def value_of_def entry_of_def split: option.splits)
  have ie: "init_entry dp1 A B (q_values s) = q_values s"
    using t m e by (simp add: init_entry_def init_key_def dict_get_def Let_def update_triv)
  have old: "dict_get (dict_get (dict_get (dict_get (q_values s) dp1 []) A []) B []) F 0 = v"
    using t m e v by (simp add: dict_get_def)
  have new: "local_value (s\<lparr>q_values := set_value dp1 A B F x (q_values s)\<rparr>) dp1 A B F = Some x"
    for x
    using t m e
    by (simp add: local_value_def set_value_def Let_def dict_get_def update_conv' value_of_def
          entry_of_def)
  show ?thesis
    by (simp add: update_local_q_table_def Let_def ie old new assms(2) learning_rate_def
          discount_factor_def)
qed

theorem update_local_q_table_value_witness:
  "local_value
      \<lparr>q_values = [(1, [(''00:00:00:00:00:01'', [(''00:00:00:00:00:02'', [(4294967291, 1 / 4)])])])],
       global_q_values = [], trust_values = []\<rparr>
      1 ''00:00:00:00:00:01'' ''00:00:00:00:00:02'' 4294967291 = Some (1 / 4)
   \<and> local_value
       (snd (update_local_q_table 1 ''00:00:00:00:00:01'' ''00:00:00:00:00:02'' 4294967291 1
          \<lparr>q_values = [(1, [(''00:00:00:00:00:01'', [(''00:00:00:00:00:02'', [(4294967291, 1 / 4)])])])],
           global_q_values = [], trust_values = []\<rparr>))
       1 ''00:00:00:00:00:01'' ''00:00:00:00:00:02'' 4294967291 = Some (7 / 10)"
proof -
  let ?s = "\<lparr>q_values = [(1, [(''00:00:00:00:00:01'', [(''00:00:00:00:00:02'', [(4294967291, 1 / 4)])])])],
             global_q_values = [], trust_values = []\<rparr>"
  have h1: "local_value ?s 1 ''00:00:00:00:00:01'' ''00:00:00:00:00:02'' 4294967291 = Some (1 / 4)"
    by (simp add: local_value_def value_of_def entry_of_def)
  have h2: "next_max (q_values ?s) 1 ''00:00:00:00:00:02'' = Inr (PyNum 0)"
    by (simp add: next_max_def dict_get_def dict_values_def py_max_def)
  from h1 update_local_q_table_value [OF h1 h2] show ?thesis
    by simp
qed

section \<open>The decision\<close>

lemma entry_of_init_global:
  "entry_of (init_global flood r src dst g) src' dst' =
     (if src' = src \<and> dst' = dst \<and> entry_of g src dst = None then Some [(flood, r)]
      else entry_of g src' dst')"
  by (auto simp: init_global_def Let_def entry_of_def init_key_def dict_get_def update_conv'
      split: option.splits)

lemma dict_get_entry_of:
  "dict_get (dict_get g src []) dst [] = (case entry_of g src dst of None \<Rightarrow> [] | Some e \<Rightarrow> e)"
  by (simp add: dict_get_def entry_of_def split: option.splits)


lemma federated_decision_global:
  "global_q_values (snd (federated_decision flood r src dst s))
     = init_global flood r src dst (global_q_values s)"
  by (simp add: federated_decision_def Let_def split: sum.splits)

lemma federated_decision_frame:
  "q_values (snd (federated_decision flood r src dst s)) = q_values s
   \<and> trust_values (snd (federated_decision flood r src dst s)) = trust_values s"
  by (simp add: federated_decision_def Let_def split: sum.splits)



text \<open>
  The operations themselves produce an empty global entry: a call of
  \<^verbatim>\<open>update_local_q_table\<close> that raises has created the empty local entry of its flow
  already, and aggregation copies it.
\<close>

lemma empty_global_entry_arises:
  "fst (update_local_q_table 1 ''00:00:00:00:00:01'' ''00:00:00:00:00:02'' 4294967291 1
         (snd (update_local_q_table 1 ''00:00:00:00:00:02'' ''00:00:00:00:00:03'' 4294967291 1
                init_controller))) = Inl TypeError
   \<and> entry_of
        (global_q_values (aggregate_global_q_values
          (snd (update_local_q_table 1 ''00:00:00:00:00:01'' ''00:00:00:00:00:02'' 4294967291 1
            (snd (update_local_q_table 1 ''00:00:00:00:00:02'' ''00:00:00:00:00:03'' 4294967291 1
                   init_controller))))))
        ''00:00:00:00:00:01'' ''00:00:00:00:00:02'' = Some []"
proof -
  let ?A = "''00:00:00:00:00:01''" and ?B = "''00:00:00:00:00:02''" and ?C = "''00:00:00:00:00:03''"
  let ?F = "4294967291 :: nat"
  let ?s1 = "\<lparr>q_values = [(1, [(?B, [(?C, [(?F, 6 / 10)])])])],
              global_q_values = [], trust_values = []\<rparr>"
  let ?s2 = "\<lparr>q_values = [(1, [(?B, [(?C, [(?F, 6 / 10)])]), (?A, [(?B, [])])])],
              global_q_values = [], trust_values = []\<rparr>"
  have u1: "update_local_q_table 1 ?B ?C ?F 1 init_controller = (Inr (), ?s1)"
    by (simp add: update_local_q_table_def init_controller_def init_entry_def set_value_def
          init_key_def dict_get_def next_max_cases Let_def learning_rate_def discount_factor_def)
  have u2: "update_local_q_table 1 ?A ?B ?F 1 ?s1 = (Inl TypeError, ?s2)"
    by (simp add: update_local_q_table_def init_entry_def init_key_def dict_get_def
          next_max_cases Let_def)
  have ag: "global_q_values (aggregate_global_q_values ?s2)
      = [(?B, [(?C, [(?F, 6 / 10)])]), (?A, [(?B, [])])]"
    by (simp add: aggregate_global_q_values_def dict_values_def merge_table_def merge_src_def
          merge_dst_def merge_action_def init_key_def dict_get_def Let_def)
  show ?thesis
    unfolding u1 snd_conv u2 fst_conv ag by (simp add: entry_of_def)
qed

lemma federated_decision_outcome:
  "fst (federated_decision flood r src dst s) = Inl ValueError
     \<longleftrightarrow> entry_of (global_q_values s) src dst = Some []"
proof -
  let ?e = "dict_get (dict_get (init_global flood r src dst (global_q_values s)) src []) dst []"
  have e: "?e = [] \<longleftrightarrow> entry_of (global_q_values s) src dst = Some []"
    by (auto simp: dict_get_entry_of entry_of_init_global split: option.splits)
  show ?thesis
  proof (cases ?e)
    case Nil
    with e show ?thesis
      by (simp add: federated_decision_def Let_def py_max_key_def)
  next
    case (Cons x xs)
    with e show ?thesis
      by (simp add: federated_decision_def Let_def py_max_key_def)
  qed
qed

text \<open>
  Such a state is reachable with a source of low trust, and there the decision raises.
\<close>

lemma update_trust_funpow_global:
  "global_q_values ((update_trust node success_rate ^^ n) s) = global_q_values s"
  by (induction n) (simp_all add: update_trust_def)

lemma federated_decision_raises_reachable:
  "reachable
     ((update_trust ''00:00:00:00:00:01'' 0 ^^ 7)
        (aggregate_global_q_values
          (snd (update_local_q_table 1 ''00:00:00:00:00:01'' ''00:00:00:00:00:02'' 4294967291 1
            (snd (update_local_q_table 1 ''00:00:00:00:00:02'' ''00:00:00:00:00:03'' 4294967291 1
                   init_controller))))))
   \<and> trust_of
        ((update_trust ''00:00:00:00:00:01'' 0 ^^ 7)
          (aggregate_global_q_values
            (snd (update_local_q_table 1 ''00:00:00:00:00:01'' ''00:00:00:00:00:02'' 4294967291 1
              (snd (update_local_q_table 1 ''00:00:00:00:00:02'' ''00:00:00:00:00:03'' 4294967291 1
                     init_controller))))))
        ''00:00:00:00:00:01'' < 1 / 2
   \<and> fst (federated_decision 4294967291 r ''00:00:00:00:00:01'' ''00:00:00:00:00:02''
        ((update_trust ''00:00:00:00:00:01'' 0 ^^ 7)
          (aggregate_global_q_values
            (snd (update_local_q_table 1 ''00:00:00:00:00:01'' ''00:00:00:00:00:02'' 4294967291 1
              (snd (update_local_q_table 1 ''00:00:00:00:00:02'' ''00:00:00:00:00:03'' 4294967291 1
                     init_controller)))))))
      = Inl ValueError"
proof -
  let ?s = "aggregate_global_q_values
          (snd (update_local_q_table 1 ''00:00:00:00:00:01'' ''00:00:00:00:00:02'' 4294967291 1
            (snd (update_local_q_table 1 ''00:00:00:00:00:02'' ''00:00:00:00:00:03'' 4294967291 1
                   init_controller))))"
  let ?t = "(update_trust ''00:00:00:00:00:01'' 0 ^^ 7) ?s"
  have r: "reachable ?t"
    by (intro reachable_update_trust_funpow reachable.aggregate reachable.update reachable.init)
  have "trust_after 7 ''00:00:00:00:00:01'' ?s = (9 / 10) ^ 7 * trust_of ?s ''00:00:00:00:00:01''"
    by (rule trust_after_power)
  moreover have "trust_of ?s ''00:00:00:00:00:01'' = 1"
    by (simp add: trust_of_def dict_get_def aggregate_global_q_values_def update_local_q_table_trust
          init_controller_def)
  ultimately have t: "trust_of ?t ''00:00:00:00:00:01'' < 1 / 2"
    by (simp add: trust_after_def power_def)
  have "entry_of (global_q_values ?t) ''00:00:00:00:00:01'' ''00:00:00:00:00:02'' = Some []"
    unfolding update_trust_funpow_global using empty_global_entry_arises by simp
  then have "fst (federated_decision 4294967291 r ''00:00:00:00:00:01'' ''00:00:00:00:00:02'' ?t)
      = Inl ValueError"
    by (simp add: federated_decision_outcome)
  with r t show ?thesis
    by simp
qed


section \<open>Who writes the global table\<close>

lemma redistribute_global: "global_q_values (redistribute_global_model s) = global_q_values s"
  by (simp add: redistribute_global_model_def)

text \<open>
  C2 as stated fails: \<^verbatim>\<open>federated_decision\<close> writes the global table too. On a fresh
  controller it stores the random number 0.25 for the flood action of a flow, while no
  local table exists.
\<close>

theorem federated_decision_writes_global:
  "value_of
      (global_q_values (snd (federated_decision 4294967291 (1 / 4) ''00:00:00:00:00:01''
         ''00:00:00:00:00:02'' init_controller)))
      ''00:00:00:00:00:01'' ''00:00:00:00:00:02'' 4294967291 = Some (1 / 4)
   \<and> q_values (snd (federated_decision 4294967291 (1 / 4) ''00:00:00:00:00:01''
         ''00:00:00:00:00:02'' init_controller)) = []
   \<and> global_q_values init_controller = []"
  by (simp add: federated_decision_frame federated_decision_global init_global_def
        init_controller_def init_key_def dict_get_def value_of_def entry_of_def Let_def)

text \<open>
  C2, as the code has it. Two operations write the global table.
  \<^verbatim>\<open>federated_decision\<close> gives a flow that has no global entry the entry
  \<open>{flood: r}\<close>, with \<open>r\<close> a random number, and leaves every other entry as it was.
  After \<^verbatim>\<open>aggregate_global_q_values\<close> every value of the global table is the value
  that was there, a local value at the same key, or the result of averaging these
  pairwise. \<^verbatim>\<open>update_local_q_table\<close>, \<^verbatim>\<open>update_trust\<close> and
  \<^verbatim>\<open>redistribute_global_model\<close> leave the global table as it was.
\<close>

theorem global_q_values_writers:
  "global_q_values (snd (update_local_q_table dp src dst a rw s)) = global_q_values s
   \<and> global_q_values (update_trust addr success_rate s) = global_q_values s
   \<and> global_q_values (redistribute_global_model s) = global_q_values s
   \<and> entry_of (global_q_values (snd (federated_decision flood r src dst s))) src' dst'
       = (if src' = src \<and> dst' = dst \<and> entry_of (global_q_values s) src dst = None
          then Some [(flood, r)] else entry_of (global_q_values s) src' dst')
   \<and> (value_of (global_q_values (aggregate_global_q_values s)) src dst a = Some v
       \<longrightarrow> v \<in> averaged (set_option (value_of (global_q_values s) src dst a)
                          \<union> set (local_values (q_values s) src dst a)))"
  by (simp add: update_local_q_table_global update_trust_def redistribute_global
        federated_decision_global entry_of_init_global foldl_merge_value_averaged
        value_of_aggregate)

theorem global_q_values_writers_witness:
  "value_of (global_q_values (aggregate_global_q_values
      \<lparr>q_values = [(1, [(''A'', [(''B'', [(5, 2)])])]), (2, [(''A'', [(''B'', [(5, 4)])])])],
       global_q_values = [], trust_values = []\<rparr>)) ''A'' ''B'' 5 = Some 3
   \<and> 3 \<in> averaged (set_option (value_of [] ''A'' ''B'' 5)
        \<union> set (local_values
            [(1, [(''A'', [(''B'', [(5, 2)])])]), (2, [(''A'', [(''B'', [(5, 4)])])])]
            ''A'' ''B'' 5))"
proof -
  let ?s = "\<lparr>q_values = [(1, [(''A'', [(''B'', [(5, 2)])])]), (2, [(''A'', [(''B'', [(5, 4)])])])],
             global_q_values = [], trust_values = []\<rparr>"
  have h: "value_of (global_q_values (aggregate_global_q_values ?s)) ''A'' ''B'' 5 = Some 3"
    by (subst value_of_aggregate)
       (simp add: local_values_def dict_values_def table_values_def dstmap_values_def
          entry_values_def value_of_def entry_of_def)
  from h global_q_values_writers
    [of 1 "''A''" "''B''" 5 1 ?s "''A''" 1 4294967291 "1 / 4" "''A''" "''B''" 3]
  show ?thesis
    by simp
qed

section \<open>Redistribution\<close>

lemma map_of_foldl_update:
  "map_of (foldl (\<lambda>q k. AList.update k g q) q ks) k
     = (if k \<in> set ks then Some g else map_of q k)"
  by (induction ks arbitrary: q) (auto simp: update_conv')

lemma keys_foldl_update:
  "set ks \<subseteq> fst ` set q \<Longrightarrow> map fst (foldl (\<lambda>q k. AList.update k g q) q ks) = map fst q"
proof (induction ks arbitrary: q)
  case Nil
  then show ?case by simp
next
  case (Cons k ks)
  from Cons.prems have k: "k \<in> fst ` set q" and ks: "set ks \<subseteq> fst ` set q"
    by simp_all
  have keys: "map fst (AList.update k g q) = map fst q"
    using k by (simp add: update_keys)
  then have "fst ` set (AList.update k g q) = fst ` set q"
    by (metis set_map)
  with ks have "set ks \<subseteq> fst ` set (AList.update k g q)"
    by simp
  from Cons.IH [OF this] keys show ?case
    by simp
qed

lemma redistribute_keys:
  "map fst (q_values (redistribute_global_model s)) = map fst (q_values s)"
  by (simp add: redistribute_global_model_def keys_foldl_update)

lemma redistribute_lookup:
  "map_of (q_values (redistribute_global_model s)) dp
     = (if dp \<in> fst ` set (q_values s) then Some (global_q_values s) else None)"
  by (auto simp: redistribute_global_model_def map_of_foldl_update map_of_eq_None_iff)




section \<open>Redistribution on objects\<close>

text \<open>Copying appends objects and leaves the objects that exist as they are.\<close>

lemma heap_extends_refl: "heap_extends h h"
  by (simp add: heap_extends_def)

lemma heap_extends_trans: "heap_extends h h1 \<Longrightarrow> heap_extends h1 h2 \<Longrightarrow> heap_extends h h2"
  by (auto simp: heap_extends_def)

lemma heap_extends_lengths:
  "heap_extends h h' \<Longrightarrow> length (entry_objs h) \<le> length (entry_objs h')
     \<and> length (dstmap_objs h) \<le> length (dstmap_objs h') \<and> length (table_objs h) \<le> length (table_objs h')"
  by (auto simp: heap_extends_def)

lemma heap_extends_entry: "heap_extends h h' \<Longrightarrow> e < length (entry_objs h) \<Longrightarrow> entry_objs h' ! e = entry_objs h ! e"
  by (auto simp: heap_extends_def nth_append)

lemma heap_extends_dstmap: "heap_extends h h' \<Longrightarrow> m < length (dstmap_objs h) \<Longrightarrow> dstmap_objs h' ! m = dstmap_objs h ! m"
  by (auto simp: heap_extends_def nth_append)

lemma heap_extends_table: "heap_extends h h' \<Longrightarrow> t < length (table_objs h) \<Longrightarrow> table_objs h' ! t = table_objs h ! t"
  by (auto simp: heap_extends_def nth_append)

text \<open>
  Copying the references of a dict one by one: what holds for the copy of one
  reference holds for all of them.
\<close>

lemma copy_refs_induct:
  fixes valid :: "heap \<Rightarrow> nat \<Rightarrow> bool" and den :: "heap \<Rightarrow> nat \<Rightarrow> 'd"
    and top :: "heap \<Rightarrow> nat" and fresh :: "heap \<Rightarrow> heap \<Rightarrow> nat \<Rightarrow> bool"
  assumes step: "\<And>h r h1 r'. heap_closed h \<Longrightarrow> valid h r \<Longrightarrow> f h r = (h1, r') \<Longrightarrow>
             heap_closed h1 \<and> heap_extends h h1 \<and> den h1 r' = den h r \<and> top h \<le> r' \<and> r' < top h1
             \<and> fresh h h1 r'"
    and stable: "\<And>h h1 r. heap_closed h \<Longrightarrow> heap_extends h h1 \<Longrightarrow> valid h r \<Longrightarrow> valid h1 r \<and> den h1 r = den h r"
    and top_mono: "\<And>h h1. heap_extends h h1 \<Longrightarrow> top h \<le> top h1"
    and top_valid: "\<And>h r. r < top h \<Longrightarrow> valid h r"
    and fresh_mono: "\<And>a b a0 b1 r. fresh a b r \<Longrightarrow> heap_extends a0 a \<Longrightarrow> heap_extends b b1 \<Longrightarrow> heap_closed b
             \<Longrightarrow> r < top b \<Longrightarrow> fresh a0 b1 r"
    and "heap_closed h" and "\<forall>r \<in> snd ` set items. valid h r"
    and "copy_refs f h items = (h', items')"
  shows "heap_closed h' \<and> heap_extends h h' \<and> map fst items' = map fst items
     \<and> map (\<lambda>kr. den h' (snd kr)) items' = map (\<lambda>kr. den h (snd kr)) items
     \<and> snd ` set items' \<subseteq> {top h ..< top h'}
     \<and> (\<forall>r \<in> snd ` set items'. fresh h h' r)"
  using assms(6-)
proof (induction items arbitrary: h h' items')
  case Nil
  then show ?case by (simp add: heap_extends_refl)
next
  case (Cons kr krs)
  obtain h1 r' where f: "f h (snd kr) = (h1, r')"
    by (cases "f h (snd kr)")
  obtain h2 krs' where rec: "copy_refs f h1 krs = (h2, krs')"
    by (cases "copy_refs f h1 krs")
  from Cons.prems(3) f rec have h': "h' = h2" and items': "items' = (fst kr, r') # krs'"
    by simp_all
  from Cons.prems(2) have vkr: "valid h (snd kr)" and vkrs: "\<forall>r \<in> snd ` set krs. valid h r"
    by simp_all
  from step[OF Cons.prems(1) vkr f]
  have s1: "heap_closed h1" "heap_extends h h1" "den h1 r' = den h (snd kr)" "top h \<le> r'" "r' < top h1" "fresh h h1 r'"
    by simp_all
  have vkrs1: "\<forall>r \<in> snd ` set krs. valid h1 r"
    using vkrs stable[OF Cons.prems(1) s1(2)] by blast
  from Cons.IH[OF s1(1) vkrs1 rec]
  have IH: "heap_closed h2" "heap_extends h1 h2" "map fst krs' = map fst krs"
    "map (\<lambda>kr. den h2 (snd kr)) krs' = map (\<lambda>kr. den h1 (snd kr)) krs"
    "snd ` set krs' \<subseteq> {top h1 ..< top h2}" "\<forall>r \<in> snd ` set krs'. fresh h1 h2 r"
    by simp_all
  have ext: "heap_extends h h2"
    using s1(2) IH(2) by (rule heap_extends_trans)
  have d1: "den h2 r' = den h (snd kr)"
    using stable[OF s1(1) IH(2) top_valid[OF s1(5)]] s1(3) by simp
  have d2: "map (\<lambda>kr. den h1 (snd kr)) krs = map (\<lambda>kr. den h (snd kr)) krs"
    using vkrs stable[OF Cons.prems(1) s1(2)] by auto
  have r1: "r' < top h2"
    using s1(5) top_mono[OF IH(2)] by simp
  have r2: "snd ` set krs' \<subseteq> {top h ..< top h2}"
    using IH(5) top_mono[OF s1(2)] by auto
  have f1: "fresh h h2 r'"
    using fresh_mono[OF s1(6) heap_extends_refl IH(2) s1(1) s1(5)] .
  have f2: "\<forall>r \<in> snd ` set krs'. fresh h h2 r"
  proof
    fix r assume r: "r \<in> snd ` set krs'"
    with IH(5) have "r < top h2" by auto
    from fresh_mono[OF IH(6)[rule_format, OF r] s1(2) heap_extends_refl IH(1) this]
    show "fresh h h2 r" .
  qed
  show ?case
    unfolding h' items' using IH(1,3,4) ext d1 d2 r1 r2 s1(4) f1 f2 by simp
qed

lemma map_pairs_cong:
  "map fst xs = map fst ys \<Longrightarrow> map (\<lambda>x. g (snd x)) xs = map (\<lambda>y. g' (snd y)) ys
     \<Longrightarrow> map (\<lambda>x. (fst x, g (snd x))) xs = map (\<lambda>y. (fst y, g' (snd y))) ys"
  by (induction xs arbitrary: ys) auto

text \<open>Entries, per-source dicts and tables in turn.\<close>

lemma deepcopy_entry_step:
  assumes "heap_closed h" and "e < length (entry_objs h)" and "deepcopy_entry h e = (h1, e')"
  shows "heap_closed h1 \<and> heap_extends h h1 \<and> entry_objs h1 ! e' = entry_objs h ! e
     \<and> length (entry_objs h) \<le> e' \<and> e' < length (entry_objs h1)"
proof -
  from assms(3) have h1: "h1 = h\<lparr>entry_objs := entry_objs h @ [entry_objs h ! e]\<rparr>"
    and e': "e' = length (entry_objs h)"
    by (simp_all add: deepcopy_entry_def)
  have "heap_closed h1"
    using assms(1) unfolding h1 heap_closed_def dstmaps_of_def entries_in_def
    by (simp add: less_Suc_eq)
  moreover have "heap_extends h h1"
    unfolding h1 by (simp add: heap_extends_def)
  ultimately show ?thesis
    unfolding e' by (simp add: h1)
qed

lemma copy_entries:
  assumes "heap_closed h" and "\<forall>e \<in> snd ` set items. e < length (entry_objs h)"
    and "copy_refs deepcopy_entry h items = (h', items')"
  shows "heap_closed h' \<and> heap_extends h h' \<and> map fst items' = map fst items
     \<and> map (\<lambda>kr. entry_objs h' ! snd kr) items' = map (\<lambda>kr. entry_objs h ! snd kr) items
     \<and> snd ` set items' \<subseteq> {length (entry_objs h) ..< length (entry_objs h')}"
proof -
  have "heap_closed h' \<and> heap_extends h h' \<and> map fst items' = map fst items
     \<and> map (\<lambda>kr. entry_objs h' ! snd kr) items' = map (\<lambda>kr. entry_objs h ! snd kr) items
     \<and> snd ` set items' \<subseteq> {length (entry_objs h) ..< length (entry_objs h')}
     \<and> (\<forall>r \<in> snd ` set items'. True)"
  proof (rule copy_refs_induct[where f = deepcopy_entry
        and valid = "\<lambda>h e. e < length (entry_objs h)" and den = "\<lambda>h e. entry_objs h ! e"
        and top = "\<lambda>h. length (entry_objs h)" and fresh = "\<lambda>a b r. True"])
    show "heap_closed h" by (rule assms(1))
    show "\<forall>e \<in> snd ` set items. e < length (entry_objs h)" by (rule assms(2))
    show "copy_refs deepcopy_entry h items = (h', items')" by (rule assms(3))
  next
    fix h r h1 r'
    assume "heap_closed h" "r < length (entry_objs h)" "deepcopy_entry h r = (h1, r')"
    from deepcopy_entry_step[OF this]
    show "heap_closed h1 \<and> heap_extends h h1 \<and> entry_objs h1 ! r' = entry_objs h ! r
       \<and> length (entry_objs h) \<le> r' \<and> r' < length (entry_objs h1) \<and> True"
      by simp
  next
    fix h h1 :: heap and r
    assume "heap_closed h" "heap_extends h h1" "r < length (entry_objs h)"
    then show "r < length (entry_objs h1) \<and> entry_objs h1 ! r = entry_objs h ! r"
      using heap_extends_lengths[of h h1] by (simp add: heap_extends_entry)
  next
    fix h h1 :: heap
    assume "heap_extends h h1"
    then show "length (entry_objs h) \<le> length (entry_objs h1)"
      by (simp add: heap_extends_lengths)
  qed simp_all
  then show ?thesis
    by simp
qed

lemma dstmap_stable:
  assumes "heap_closed h" and "heap_extends h h1" and "m < length (dstmap_objs h)"
  shows "m < length (dstmap_objs h1) \<and> dstmap_at h1 m = dstmap_at h m \<and> entries_in h1 m = entries_in h m"
proof -
  have m1: "m < length (dstmap_objs h1)"
    using heap_extends_lengths[OF assms(2)] assms(3) by simp
  have same: "dstmap_objs h1 ! m = dstmap_objs h ! m"
    using assms(2,3) by (rule heap_extends_dstmap)
  have "\<forall>kr \<in> set (dstmap_objs h ! m). snd kr < length (entry_objs h)"
    using assms(1,3) by (simp add: heap_closed_def entries_in_def)
  then have "map (\<lambda>de. (fst de, entry_objs h1 ! snd de)) (dstmap_objs h ! m)
      = map (\<lambda>de. (fst de, entry_objs h ! snd de)) (dstmap_objs h ! m)"
    using heap_extends_entry[OF assms(2)] by simp
  then show ?thesis
    using m1 same by (simp add: dstmap_at_def entries_in_def)
qed

lemma deepcopy_dstmap_step:
  assumes "heap_closed h" and "m < length (dstmap_objs h)" and "deepcopy_dstmap h m = (h', m')"
  shows "heap_closed h' \<and> heap_extends h h' \<and> dstmap_at h' m' = dstmap_at h m
     \<and> length (dstmap_objs h) \<le> m' \<and> m' < length (dstmap_objs h')
     \<and> entries_in h' m' \<subseteq> {length (entry_objs h) ..< length (entry_objs h')}"
proof -
  obtain h1 items where c: "copy_refs deepcopy_entry h (dstmap_objs h ! m) = (h1, items)"
    by (cases "copy_refs deepcopy_entry h (dstmap_objs h ! m)")
  with assms(3) have h': "h' = h1\<lparr>dstmap_objs := dstmap_objs h1 @ [items]\<rparr>"
    and m': "m' = length (dstmap_objs h1)"
    by (simp_all add: deepcopy_dstmap_def)
  have valid: "\<forall>e \<in> snd ` set (dstmap_objs h ! m). e < length (entry_objs h)"
    using assms(1,2) by (simp add: heap_closed_def entries_in_def)
  from copy_entries[OF assms(1) valid c]
  have c1: "heap_closed h1" "heap_extends h h1" "map fst items = map fst (dstmap_objs h ! m)"
    "map (\<lambda>kr. entry_objs h1 ! snd kr) items = map (\<lambda>kr. entry_objs h ! snd kr) (dstmap_objs h ! m)"
    "snd ` set items \<subseteq> {length (entry_objs h) ..< length (entry_objs h1)}"
    by simp_all
  have closed': "heap_closed h'"
    using c1(1,5) unfolding h' heap_closed_def dstmaps_of_def entries_in_def
    by (auto simp: less_Suc_eq nth_append)
  have ext: "heap_extends h h'"
    using c1(2) unfolding h' by (auto simp: heap_extends_def)
  have den: "dstmap_at h' m' = dstmap_at h m"
    unfolding h' m' dstmap_at_def using map_pairs_cong[OF c1(3,4)] by simp
  have rng: "entries_in h' m' \<subseteq> {length (entry_objs h) ..< length (entry_objs h')}"
    unfolding h' m' entries_in_def using c1(5) by simp
  show ?thesis
    using closed' ext den rng heap_extends_lengths[OF c1(2)] by (simp add: h' m')
qed

lemma copy_dstmaps:
  assumes "heap_closed h" and "\<forall>m \<in> snd ` set items. m < length (dstmap_objs h)"
    and "copy_refs deepcopy_dstmap h items = (h', items')"
  shows "heap_closed h' \<and> heap_extends h h' \<and> map fst items' = map fst items
     \<and> map (\<lambda>kr. dstmap_at h' (snd kr)) items' = map (\<lambda>kr. dstmap_at h (snd kr)) items
     \<and> snd ` set items' \<subseteq> {length (dstmap_objs h) ..< length (dstmap_objs h')}
     \<and> (\<forall>m \<in> snd ` set items'.
           entries_in h' m \<subseteq> {length (entry_objs h) ..< length (entry_objs h')})"
proof (rule copy_refs_induct[where f = deepcopy_dstmap and valid = "\<lambda>h m. m < length (dstmap_objs h)"
      and den = dstmap_at and top = "\<lambda>h. length (dstmap_objs h)"
      and fresh = "\<lambda>a b m. entries_in b m \<subseteq> {length (entry_objs a) ..< length (entry_objs b)}"])
  show "heap_closed h" by (rule assms(1))
  show "\<forall>m \<in> snd ` set items. m < length (dstmap_objs h)" by (rule assms(2))
  show "copy_refs deepcopy_dstmap h items = (h', items')" by (rule assms(3))
next
  fix h r h1 r'
  assume "heap_closed h" "r < length (dstmap_objs h)" "deepcopy_dstmap h r = (h1, r')"
  from deepcopy_dstmap_step[OF this]
  show "heap_closed h1 \<and> heap_extends h h1 \<and> dstmap_at h1 r' = dstmap_at h r
     \<and> length (dstmap_objs h) \<le> r' \<and> r' < length (dstmap_objs h1)
     \<and> entries_in h1 r' \<subseteq> {length (entry_objs h) ..< length (entry_objs h1)}"
    by simp
next
  fix h h1 :: heap and r
  assume "heap_closed h" "heap_extends h h1" "r < length (dstmap_objs h)"
  from dstmap_stable[OF this]
  show "r < length (dstmap_objs h1) \<and> dstmap_at h1 r = dstmap_at h r"
    by simp
next
  fix h h1 :: heap
  assume "heap_extends h h1"
  then show "length (dstmap_objs h) \<le> length (dstmap_objs h1)"
    by (simp add: heap_extends_lengths)
next
  fix a b a0 b1 :: heap and r
  assume f: "entries_in b r \<subseteq> {length (entry_objs a) ..< length (entry_objs b)}"
    and "heap_extends a0 a" and b: "heap_extends b b1" and cb: "heap_closed b"
    and r: "r < length (dstmap_objs b)"
  from dstmap_stable[OF cb b r] have "entries_in b1 r = entries_in b r"
    by simp
  with f heap_extends_lengths[OF \<open>heap_extends a0 a\<close>] heap_extends_lengths[OF b]
  show "entries_in b1 r \<subseteq> {length (entry_objs a0) ..< length (entry_objs b1)}"
    by auto
qed simp

lemma table_stable:
  assumes "heap_closed h" and "heap_extends h h1" and "t < length (table_objs h)"
  shows "t < length (table_objs h1) \<and> table_at h1 t = table_at h t
     \<and> dstmaps_of h1 t = dstmaps_of h t \<and> entries_of h1 t = entries_of h t"
proof -
  have t1: "t < length (table_objs h1)"
    using heap_extends_lengths[OF assms(2)] assms(3) by simp
  have same: "table_objs h1 ! t = table_objs h ! t"
    using assms(2,3) by (rule heap_extends_table)
  have valid: "\<forall>m \<in> dstmaps_of h t. m < length (dstmap_objs h)"
    using assms(1,3) by (simp add: heap_closed_def)
  then have st: "\<forall>m \<in> dstmaps_of h t. dstmap_at h1 m = dstmap_at h m \<and> entries_in h1 m = entries_in h m"
    using dstmap_stable[OF assms(1,2)] by blast
  have "map (\<lambda>sm. (fst sm, dstmap_at h1 (snd sm))) (table_objs h ! t)
      = map (\<lambda>sm. (fst sm, dstmap_at h (snd sm))) (table_objs h ! t)"
    using st by (simp add: dstmaps_of_def)
  then show ?thesis
    using t1 same st by (simp add: table_at_def dstmaps_of_def entries_of_def)
qed

lemma deepcopy_table_step:
  assumes "heap_closed h" and "t < length (table_objs h)" and "deepcopy_table h t = (h', t')"
  shows "heap_closed h' \<and> heap_extends h h' \<and> table_at h' t' = table_at h t
     \<and> length (table_objs h) \<le> t' \<and> t' < length (table_objs h')
     \<and> dstmaps_of h' t' \<subseteq> {length (dstmap_objs h) ..< length (dstmap_objs h')}
     \<and> entries_of h' t' \<subseteq> {length (entry_objs h) ..< length (entry_objs h')}"
proof -
  obtain h1 items where c: "copy_refs deepcopy_dstmap h (table_objs h ! t) = (h1, items)"
    by (cases "copy_refs deepcopy_dstmap h (table_objs h ! t)")
  with assms(3) have h': "h' = h1\<lparr>table_objs := table_objs h1 @ [items]\<rparr>"
    and t': "t' = length (table_objs h1)"
    by (simp_all add: deepcopy_table_def)
  have valid: "\<forall>m \<in> snd ` set (table_objs h ! t). m < length (dstmap_objs h)"
    using assms(1,2) by (simp add: heap_closed_def dstmaps_of_def)
  from copy_dstmaps[OF assms(1) valid c]
  have c1: "heap_closed h1" "heap_extends h h1" "map fst items = map fst (table_objs h ! t)"
    "map (\<lambda>kr. dstmap_at h1 (snd kr)) items = map (\<lambda>kr. dstmap_at h (snd kr)) (table_objs h ! t)"
    "snd ` set items \<subseteq> {length (dstmap_objs h) ..< length (dstmap_objs h1)}"
    "\<forall>m \<in> snd ` set items. entries_in h1 m \<subseteq> {length (entry_objs h) ..< length (entry_objs h1)}"
    by simp_all
  have closed': "heap_closed h'"
    using c1(1,5) unfolding h' heap_closed_def dstmaps_of_def entries_in_def
    by (auto simp: less_Suc_eq nth_append)
  have ext: "heap_extends h h'"
    using c1(2) unfolding h' by (auto simp: heap_extends_def)
  have den: "table_at h' t' = table_at h t"
    unfolding h' t' table_at_def dstmap_at_def
    using map_pairs_cong[OF c1(3,4)] by (simp add: dstmap_at_def)
  have rng1: "dstmaps_of h' t' \<subseteq> {length (dstmap_objs h) ..< length (dstmap_objs h')}"
    unfolding h' t' dstmaps_of_def using c1(5) by simp
  have rng2: "entries_of h' t' \<subseteq> {length (entry_objs h) ..< length (entry_objs h')}"
    unfolding h' t' entries_of_def dstmaps_of_def entries_in_def using c1(6)
    by (auto simp: entries_in_def)
  show ?thesis
    using closed' ext den rng1 rng2 heap_extends_lengths[OF c1(2)] by (simp add: h' t')
qed

text \<open>
  On a closed state, redistribution on objects denotes what
  \<open>redistribute_global_model\<close> does on values.
\<close>

lemma map_update_values:
  "map (\<lambda>dr. (fst dr, g (snd dr))) (AList.update k v al)
     = AList.update k (g v) (map (\<lambda>dr. (fst dr, g (snd dr))) al)"
  by (induction al) auto

lemma values_update: "snd ` set (AList.update k v al) \<subseteq> insert v (snd ` set al)"
  by (induction al) auto

lemma redistribute_step_refines:
  assumes "state_closed s"
  shows "state_closed (redistribute_step s dp)
     \<and> heap_extends (objs s) (objs (redistribute_step s dp))
     \<and> global_ref (redistribute_step s dp) = global_ref s
     \<and> abstract (redistribute_step s dp)
         = (abstract s)\<lparr>q_values :=
              AList.update dp (global_q_values (abstract s)) (q_values (abstract s))\<rparr>"
proof -
  obtain h1 r where c: "deepcopy_table (objs s) (global_ref s) = (h1, r)"
    by (cases "deepcopy_table (objs s) (global_ref s)")
  then have s': "redistribute_step s dp = s\<lparr>objs := h1, q_refs := AList.update dp r (q_refs s)\<rparr>"
    by (simp add: redistribute_step_def)
  from assms have cl: "heap_closed (objs s)" and g: "global_ref s < length (table_objs (objs s))"
    and q: "\<forall>r \<in> snd ` set (q_refs s). r < length (table_objs (objs s))"
    by (simp_all add: state_closed_def)
  from deepcopy_table_step[OF cl g c]
  have d: "heap_closed h1" "heap_extends (objs s) h1" "table_at h1 r = table_at (objs s) (global_ref s)"
    "r < length (table_objs h1)"
    by simp_all
  have len: "length (table_objs (objs s)) \<le> length (table_objs h1)"
    using heap_extends_lengths[OF d(2)] by simp
  have "\<forall>x \<in> snd ` set (AList.update dp r (q_refs s)). x < length (table_objs h1)"
    using values_update[of dp r "q_refs s"] q d(4) len by fastforce
  then have closed': "state_closed (redistribute_step s dp)"
    using d(1) g len by (simp add: s' state_closed_def)
  have old: "map (\<lambda>dr. (fst dr, table_at h1 (snd dr))) (q_refs s)
      = map (\<lambda>dr. (fst dr, table_at (objs s) (snd dr))) (q_refs s)"
    using q table_stable[OF cl d(2)] by simp
  have glob: "table_at h1 (global_ref s) = table_at (objs s) (global_ref s)"
    using table_stable[OF cl d(2) g] by simp
  have "abstract (redistribute_step s dp)
         = (abstract s)\<lparr>q_values :=
              AList.update dp (global_q_values (abstract s)) (q_values (abstract s))\<rparr>"
    by (simp add: s' abstract_def map_update_values old glob d(3))
  with closed' d(2) show ?thesis
    by (simp add: s')
qed

lemma foldl_redistribute_step_refines:
  "state_closed s \<Longrightarrow>
     state_closed (foldl redistribute_step s ks)
     \<and> abstract (foldl redistribute_step s ks)
         = (abstract s)\<lparr>q_values :=
              foldl (\<lambda>q dp. AList.update dp (global_q_values (abstract s)) q)
                (q_values (abstract s)) ks\<rparr>"
proof (induction ks arbitrary: s)
  case Nil
  then show ?case by simp
next
  case (Cons k ks)
  from redistribute_step_refines[OF Cons.prems, of k]
  have st: "state_closed (redistribute_step s k)"
    and ab: "abstract (redistribute_step s k)
         = (abstract s)\<lparr>q_values :=
              AList.update k (global_q_values (abstract s)) (q_values (abstract s))\<rparr>"
    by simp_all
  from Cons.IH[OF st] show ?case
    by (simp add: ab)
qed

theorem redistribute_objects_refines:
  assumes "state_closed s"
  shows "abstract (redistribute_objects s) = redistribute_global_model (abstract s)"
proof -
  have keys: "map fst (q_refs s) = map fst (q_values (abstract s))"
    by (simp add: abstract_def comp_def)
  show ?thesis
    using foldl_redistribute_step_refines[OF assms, of "map fst (q_refs s)"]
    by (simp add: redistribute_objects_def redistribute_global_model_def keys)
qed

text \<open>
  After redistribution the table of every datapath denotes the global table and shares
  no object with the global table or with the table of another datapath.
\<close>

lemma fresh_table_stable:
  assumes "heap_closed h" and "heap_extends h h1" and "fresh_table h0 h t"
  shows "fresh_table h0 h1 t"
proof -
  from assms(3) have t: "t < length (table_objs h)"
    by (simp add: fresh_table_def)
  from table_stable[OF assms(1,2) t] assms(3) heap_extends_lengths[OF assms(2)]
  show ?thesis
    by (auto simp: fresh_table_def)
qed

lemma separate_stable:
  assumes "heap_closed h" and "heap_extends h h1" and "t < length (table_objs h)"
    and "t' < length (table_objs h)" and "separate h t t'"
  shows "separate h1 t t'"
  using table_stable[OF assms(1,2,3)] table_stable[OF assms(1,2,4)] assms(5)
  by (simp add: separate_def)

lemma fresh_tables_separate:
  assumes "fresh_table h0 h t" and "fresh_table h h1 t'" and "heap_closed h" and "heap_extends h h1"
  shows "separate h1 t t' \<and> separate h1 t' t"
proof -
  from assms(1) have t: "t < length (table_objs h)"
    by (simp add: fresh_table_def)
  from table_stable[OF assms(3,4) t] assms(1)
  have old: "dstmaps_of h1 t \<subseteq> {..< length (dstmap_objs h)}" "entries_of h1 t \<subseteq> {..< length (entry_objs h)}"
    by (auto simp: fresh_table_def)
  from assms(2) have new: "length (table_objs h) \<le> t'"
    "dstmaps_of h1 t' \<subseteq> {length (dstmap_objs h) ..}" "entries_of h1 t' \<subseteq> {length (entry_objs h) ..}"
    by (auto simp: fresh_table_def)
  from t old new show ?thesis
    unfolding separate_def by fastforce
qed

lemma redistribute_step_separate:
  assumes st: "state_closed s" and ext: "heap_extends h0 (objs s)" and inv: "copies_separate h0 s K"
  shows "copies_separate h0 (redistribute_step s k) (insert k K)"
proof -
  obtain h1 rn where c: "deepcopy_table (objs s) (global_ref s) = (h1, rn)"
    by (cases "deepcopy_table (objs s) (global_ref s)")
  then have s': "redistribute_step s k = s\<lparr>objs := h1, q_refs := AList.update k rn (q_refs s)\<rparr>"
    by (simp add: redistribute_step_def)
  from st have cl: "heap_closed (objs s)" and g: "global_ref s < length (table_objs (objs s))"
    by (simp_all add: state_closed_def)
  from deepcopy_table_step[OF cl g c]
  have d: "heap_closed h1" "heap_extends (objs s) h1" and fr: "fresh_table (objs s) h1 rn"
    by (simp_all add: fresh_table_def)
  have fr0: "fresh_table h0 h1 rn"
    using fr heap_extends_lengths[OF ext] by (auto simp: fresh_table_def)
  have look: "map_of (q_refs (redistribute_step s k)) dp = (if dp = k then Some rn else map_of (q_refs s) dp)" for dp
    by (simp add: s' update_conv')
  have objs': "objs (redistribute_step s k) = h1"
    by (simp add: s')
  have part1: "\<exists>r. map_of (q_refs (redistribute_step s k)) dp = Some r \<and> fresh_table h0 h1 r"
    if "dp \<in> insert k K" for dp
  proof (cases "dp = k")
    case True
    then show ?thesis using fr0 by (simp add: look)
  next
    case False
    with that inv obtain r where "map_of (q_refs s) dp = Some r" "fresh_table h0 (objs s) r"
      by (auto simp: copies_separate_def)
    with False fresh_table_stable[OF cl d(2)] show ?thesis
      by (simp add: look)
  qed
  have part2: "separate h1 r r'"
    if ne: "dp \<noteq> dp'" and ins: "dp \<in> insert k K" "dp' \<in> insert k K"
      and l: "map_of (q_refs (redistribute_step s k)) dp = Some r"
      and l': "map_of (q_refs (redistribute_step s k)) dp' = Some r'" for dp dp' r r'
  proof -
    from ne consider (new_old) "dp = k" "dp' \<noteq> k" | (old_new) "dp \<noteq> k" "dp' = k"
      | (old_old) "dp \<noteq> k" "dp' \<noteq> k"
      by blast
    then show ?thesis
    proof cases
      case new_old
      with ins l l' have r: "r = rn" and r': "map_of (q_refs s) dp' = Some r'" and "dp' \<in> K"
        by (simp_all add: look)
      with inv have "fresh_table h0 (objs s) r'"
        by (auto simp: copies_separate_def)
      from fresh_tables_separate[OF this fr cl d(2)] show ?thesis
        by (simp add: r)
    next
      case old_new
      with ins l l' have r': "r' = rn" and r: "map_of (q_refs s) dp = Some r" and "dp \<in> K"
        by (simp_all add: look)
      with inv have "fresh_table h0 (objs s) r"
        by (auto simp: copies_separate_def)
      from fresh_tables_separate[OF this fr cl d(2)] show ?thesis
        by (simp add: r')
    next
      case old_old
      with ins l l' have r: "map_of (q_refs s) dp = Some r" and r': "map_of (q_refs s) dp' = Some r'"
        and K: "dp \<in> K" "dp' \<in> K"
        by (simp_all add: look)
      with inv ne have sep: "separate (objs s) r r'"
        and "fresh_table h0 (objs s) r" "fresh_table h0 (objs s) r'"
        by (auto simp: copies_separate_def)
      then have "r < length (table_objs (objs s))" "r' < length (table_objs (objs s))"
        by (simp_all add: fresh_table_def)
      from separate_stable[OF cl d(2) this sep] show ?thesis .
    qed
  qed
  show ?thesis
    unfolding copies_separate_def objs' using part1 part2 by blast
qed

lemma foldl_redistribute_step_separate:
  "state_closed s \<Longrightarrow> heap_extends h0 (objs s) \<Longrightarrow> copies_separate h0 s K \<Longrightarrow>
     state_closed (foldl redistribute_step s ks)
     \<and> heap_extends h0 (objs (foldl redistribute_step s ks))
     \<and> global_ref (foldl redistribute_step s ks) = global_ref s
     \<and> copies_separate h0 (foldl redistribute_step s ks) (K \<union> set ks)"
proof (induction ks arbitrary: s K)
  case Nil
  then show ?case by simp
next
  case (Cons k ks)
  from redistribute_step_refines[OF Cons.prems(1), of k]
  have st: "state_closed (redistribute_step s k)"
    and ext: "heap_extends (objs s) (objs (redistribute_step s k))"
    and g: "global_ref (redistribute_step s k) = global_ref s"
    by simp_all
  have ext0: "heap_extends h0 (objs (redistribute_step s k))"
    using Cons.prems(2) ext by (rule heap_extends_trans)
  have inv: "copies_separate h0 (redistribute_step s k) (insert k K)"
    using Cons.prems by (rule redistribute_step_separate)
  from Cons.IH[OF st ext0 inv] g show ?case
    by simp
qed

lemma copies_separateD:
  "copies_separate h0 s K \<Longrightarrow> dp \<in> K \<Longrightarrow> dp' \<in> K \<Longrightarrow> dp \<noteq> dp'
     \<Longrightarrow> map_of (q_refs s) dp = Some r \<Longrightarrow> map_of (q_refs s) dp' = Some r'
     \<Longrightarrow> separate (objs s) r r'"
  unfolding copies_separate_def by fast

lemma map_of_map_values:
  "map_of (map (\<lambda>dr. (fst dr, g (snd dr))) al) k = map_option g (map_of al k)"
  by (induction al) auto

lemma closed_table_objects:
  assumes "heap_closed h" and "t < length (table_objs h)"
  shows "dstmaps_of h t \<subseteq> {..< length (dstmap_objs h)} \<and> entries_of h t \<subseteq> {..< length (entry_objs h)}"
  using assms unfolding heap_closed_def entries_of_def by blast

lemma table_at_agree:
  assumes "table_objs h2 ! t = table_objs h1 ! t"
    and "\<forall>m \<in> dstmaps_of h1 t. dstmap_objs h2 ! m = dstmap_objs h1 ! m"
    and "\<forall>e \<in> entries_of h1 t. entry_objs h2 ! e = entry_objs h1 ! e"
  shows "table_at h2 t = table_at h1 t"
proof -
  have "dstmap_at h2 m = dstmap_at h1 m" if "m \<in> dstmaps_of h1 t" for m
  proof -
    from that assms(3) have "\<forall>e \<in> entries_in h1 m. entry_objs h2 ! e = entry_objs h1 ! e"
      by (auto simp: entries_of_def)
    with that assms(2) show ?thesis
      by (simp add: dstmap_at_def entries_in_def)
  qed
  then show ?thesis
    using assms(1) by (simp add: table_at_def dstmaps_of_def)
qed

theorem redistribute_objects_separate:
  assumes "state_closed s" and "map_of (q_refs (redistribute_objects s)) dp = Some r"
  shows "table_at (objs (redistribute_objects s)) r
           = table_at (objs (redistribute_objects s)) (global_ref (redistribute_objects s))
     \<and> separate (objs (redistribute_objects s)) r (global_ref (redistribute_objects s))
     \<and> (\<forall>dp' r'. dp' \<noteq> dp \<longrightarrow> map_of (q_refs (redistribute_objects s)) dp' = Some r'
          \<longrightarrow> separate (objs (redistribute_objects s)) r r')"
proof -
  let ?s' = "redistribute_objects s"
  have inv0: "copies_separate (objs s) s {}"
    by (simp add: copies_separate_def)
  from foldl_redistribute_step_separate[OF assms(1) heap_extends_refl inv0, of "map fst (q_refs s)"]
  have st: "state_closed ?s'" and ext: "heap_extends (objs s) (objs ?s')"
    and g: "global_ref ?s' = global_ref s"
    and inv: "copies_separate (objs s) ?s' (fst ` set (q_refs s))"
    by (simp_all add: redistribute_objects_def)
  have "map fst (q_values (abstract ?s')) = map fst (q_values (abstract s))"
    unfolding redistribute_objects_refines[OF assms(1)] by (rule redistribute_keys)
  then have "map fst (q_refs ?s') = map fst (q_refs s)"
    by (simp add: abstract_def comp_def)
  then have keys: "fst ` set (q_refs ?s') = fst ` set (q_refs s)"
    by (metis set_map)
  have key: "k \<in> fst ` set (q_refs s)" if "map_of (q_refs ?s') k = Some x" for k x
    using that keys by (metis map_of_eq_None_iff option.distinct(1))
  from inv key[OF assms(2)] assms(2) have fr: "fresh_table (objs s) (objs ?s') r"
    by (auto simp: copies_separate_def)
  from assms(1) have cl: "heap_closed (objs s)" and gl: "global_ref s < length (table_objs (objs s))"
    by (simp_all add: state_closed_def)
  from closed_table_objects[OF cl gl] table_stable[OF cl ext gl]
  have old: "dstmaps_of (objs ?s') (global_ref s) \<subseteq> {..< length (dstmap_objs (objs s))}"
    "entries_of (objs ?s') (global_ref s) \<subseteq> {..< length (entry_objs (objs s))}"
    by simp_all
  have sep_g: "separate (objs ?s') r (global_ref ?s')"
    unfolding g separate_def using fr gl old by (fastforce simp: fresh_table_def)
  have "q_values (abstract ?s') = q_values (redistribute_global_model (abstract s))"
    by (simp add: redistribute_objects_refines[OF assms(1)])
  have eq: "table_at (objs ?s') r = table_at (objs ?s') (global_ref ?s')"
  proof -
    have "map_of (q_values (abstract ?s')) dp = Some (table_at (objs ?s') r)"
      using assms(2) by (simp add: abstract_def map_of_map_values)
    moreover have "map_of (q_values (abstract ?s')) dp = Some (global_q_values (abstract ?s'))"
      unfolding redistribute_objects_refines[OF assms(1)]
      using key[OF assms(2)]
      by (simp add: redistribute_lookup redistribute_global abstract_def image_image)
    ultimately show ?thesis
      by (simp add: abstract_def)
  qed
  have sep: "separate (objs ?s') r r'"
    if "dp' \<noteq> dp" "map_of (q_refs ?s') dp' = Some r'" for dp' r'
    using copies_separateD[OF inv key[OF assms(2)] key[OF that(2)] _ assms(2) that(2)] that(1)
    by simp
  show ?thesis
  proof (intro conjI allI impI)
    show "table_at (objs ?s') r = table_at (objs ?s') (global_ref ?s')"
      by (rule eq)
    show "separate (objs ?s') r (global_ref ?s')"
      by (rule sep_g)
    fix dp' r'
    assume "dp' \<noteq> dp" "map_of (q_refs ?s') dp' = Some r'"
    then show "separate (objs ?s') r r'"
      by (rule sep)
  qed
qed

text \<open>
  So whatever is assigned afterwards into the table of one datapath, or into the dicts
  nested in it, the global table and the tables of the other datapaths denote what
  they did.
\<close>

lemma separate_independent:
  assumes "heap_closed h" and "r' < length (table_objs h)" and "separate h r r'"
    and "\<forall>t < length (table_objs h). t \<noteq> r \<longrightarrow> table_objs h2 ! t = table_objs h ! t"
    and "\<forall>m < length (dstmap_objs h). m \<notin> dstmaps_of h r \<longrightarrow> dstmap_objs h2 ! m = dstmap_objs h ! m"
    and "\<forall>e < length (entry_objs h). e \<notin> entries_of h r \<longrightarrow> entry_objs h2 ! e = entry_objs h ! e"
  shows "table_at h2 r' = table_at h r'"
proof (rule table_at_agree)
  from assms(3) have ne: "r' \<noteq> r" and d: "dstmaps_of h r \<inter> dstmaps_of h r' = {}"
    and e: "entries_of h r \<inter> entries_of h r' = {}"
    by (auto simp: separate_def)
  from closed_table_objects[OF assms(1,2)]
  have b: "dstmaps_of h r' \<subseteq> {..< length (dstmap_objs h)}"
    "entries_of h r' \<subseteq> {..< length (entry_objs h)}"
    by simp_all
  show "table_objs h2 ! r' = table_objs h ! r'"
    using assms(2,4) ne by simp
  show "\<forall>m \<in> dstmaps_of h r'. dstmap_objs h2 ! m = dstmap_objs h ! m"
    using assms(5) d b(1) by blast
  show "\<forall>e \<in> entries_of h r'. entry_objs h2 ! e = entry_objs h ! e"
    using assms(6) e b(2) by blast
qed

theorem redistribute_objects_independent:
  assumes "state_closed s" and "map_of (q_refs (redistribute_objects s)) dp = Some r"
    and "changes_only (objs (redistribute_objects s)) r h2"
  shows "table_at h2 (global_ref (redistribute_objects s))
           = table_at (objs (redistribute_objects s)) (global_ref (redistribute_objects s))
     \<and> (\<forall>dp' r'. dp' \<noteq> dp \<longrightarrow> map_of (q_refs (redistribute_objects s)) dp' = Some r'
          \<longrightarrow> table_at h2 r' = table_at (objs (redistribute_objects s)) r')"
proof -
  let ?s' = "redistribute_objects s"
  from foldl_redistribute_step_refines[OF assms(1), of "map fst (q_refs s)"]
  have st: "state_closed ?s'"
    by (simp add: redistribute_objects_def)
  then have cl: "heap_closed (objs ?s')" and g: "global_ref ?s' < length (table_objs (objs ?s'))"
    and q: "\<forall>x \<in> snd ` set (q_refs ?s'). x < length (table_objs (objs ?s'))"
    by (simp_all add: state_closed_def)
  from redistribute_objects_separate[OF assms(1,2)]
  have sg: "separate (objs ?s') r (global_ref ?s')"
    and sq: "\<And>dp' r'. dp' \<noteq> dp \<Longrightarrow> map_of (q_refs ?s') dp' = Some r' \<Longrightarrow> separate (objs ?s') r r'"
    by blast+
  from assms(3) have c:
    "\<forall>t < length (table_objs (objs ?s')). t \<noteq> r \<longrightarrow> table_objs h2 ! t = table_objs (objs ?s') ! t"
    "\<forall>m < length (dstmap_objs (objs ?s')). m \<notin> dstmaps_of (objs ?s') r
        \<longrightarrow> dstmap_objs h2 ! m = dstmap_objs (objs ?s') ! m"
    "\<forall>e < length (entry_objs (objs ?s')). e \<notin> entries_of (objs ?s') r
        \<longrightarrow> entry_objs h2 ! e = entry_objs (objs ?s') ! e"
    by (simp_all add: changes_only_def)
  show ?thesis
  proof (intro conjI allI impI)
    show "table_at h2 (global_ref ?s') = table_at (objs ?s') (global_ref ?s')"
      using cl g sg c by (rule separate_independent)
    fix dp' r'
    assume ne: "dp' \<noteq> dp" and l: "map_of (q_refs ?s') dp' = Some r'"
    from l have "(dp', r') \<in> set (q_refs ?s')"
      by (rule map_of_SomeD)
    then have "r' < length (table_objs (objs ?s'))"
      using q by force
    then show "table_at h2 r' = table_at (objs ?s') r'"
      using cl sq[OF ne l] c by (intro separate_independent)
  qed
qed

text \<open>
  An example: two datapaths that hold a reference to the global table itself get a copy
  each.
\<close>

lemma redistribute_objects_example:
  "state_closed
     \<lparr>objs = \<lparr>entry_objs = [[(5, 3)]], dstmap_objs = [[(''B'', 0)]], table_objs = [[(''A'', 0)]]\<rparr>,
      q_refs = [(1, 0), (2, 0)], global_ref = 0, trust_obj = []\<rparr>
   \<and> redistribute_objects
     \<lparr>objs = \<lparr>entry_objs = [[(5, 3)]], dstmap_objs = [[(''B'', 0)]], table_objs = [[(''A'', 0)]]\<rparr>,
      q_refs = [(1, 0), (2, 0)], global_ref = 0, trust_obj = []\<rparr>
     = \<lparr>objs = \<lparr>entry_objs = [[(5, 3)], [(5, 3)], [(5, 3)]],
                dstmap_objs = [[(''B'', 0)], [(''B'', 1)], [(''B'', 2)]],
                table_objs = [[(''A'', 0)], [(''A'', 1)], [(''A'', 2)]]\<rparr>,
        q_refs = [(1, 1), (2, 2)], global_ref = 0, trust_obj = []\<rparr>"
  by (simp add: state_closed_def heap_closed_def dstmaps_of_def entries_in_def
        redistribute_objects_def redistribute_step_def deepcopy_table_def deepcopy_dstmap_def
        deepcopy_entry_def)

end
